theory Spec2Isabelle
  imports Complex_Main "HOL-Library.AList"
begin

text \<open>
  The streaming core of streamui: the stream buffer and line classifier of spec-stream.ts,
  \<open>applySpecPatch\<close> and \<open>buildSpec\<close>, and the response stream of transport.ts.
  Mutable variables are passed in and returned, a throw is a value of a sum or option
  type, and what the code takes from its runtime or from @json-render/core
  (\<open>JSON.parse\<close>, \<open>applySpecStreamPatch\<close>) is a parameter of the functions that call it.
\<close>

section \<open>JavaScript strings and JSON values\<close>

text \<open>
  A JavaScript string is modelled as a \<^typ>\<open>string\<close>, one \<^typ>\<open>char\<close> per code unit;
  only the code units 0 to 255 are representable. \<open>String.prototype.trim\<close> removes
  white space and line terminators; within that range these are the code units
  9 to 13, 32 and 160.
\<close>

definition newline :: char where
  "newline = CHR 0x0A"

definition is_space :: "char \<Rightarrow> bool" where
  "is_space c =
     (c = CHR 0x09 \<or> c = CHR 0x0A \<or> c = CHR 0x0B \<or> c = CHR 0x0C \<or> c = CHR 0x0D
      \<or> c = CHR 0x20 \<or> c = CHR 0xA0)"

definition trimStart :: "string \<Rightarrow> string" where
  "trimStart s = dropWhile is_space s"

definition trim :: "string \<Rightarrow> string" where
  "trim s = rev (dropWhile is_space (rev (dropWhile is_space s)))"

text \<open>\<open>s.split("\n")\<close>: the pieces between line terminators, never an empty array.\<close>

fun split_nl :: "string \<Rightarrow> string list" where
  "split_nl [] = [[]]"
| "split_nl (c # cs) =
     (let pieces = split_nl cs
      in if c = newline then [] # pieces else (c # hd pieces) # tl pieces)"

text \<open>
  \<open>const lines = buffer.split("\n"); buffer = lines.pop() || "";\<close>
  The array is never empty, so \<open>pop\<close> returns its last piece; the complete lines
  are the pieces before it.
\<close>

definition split_pop :: "string \<Rightarrow> string list \<times> string" where
  "split_pop s = (butlast (split_nl s), last (split_nl s))"

text \<open>
  The values \<open>JSON.parse\<close> returns. An object is the list of its members, one for
  each name; a member is read with \<^const>\<open>map_of\<close>. A number is a real number;
  the infinity that \<open>JSON.parse\<close> returns for a literal out of range is not
  represented (it is truthy, as every number but zero).
\<close>

datatype json =
    JNull
  | JBool bool
  | JNum real
  | JStr string
  | JArr "json list"
  | JObj "(string \<times> json) list"

text \<open>
  \<open>parsed.op\<close>, \<open>parsed.path\<close>: reading a member of a parsed value. The result is
  \<open>None\<close> for \<open>undefined\<close>: the member is missing, or the value is a boolean, a
  number, a string or an array (none of which has a member of these names). Reading a
  member of \<open>null\<close> throws; the callers below treat \<^const>\<open>JNull\<close> before they read.
\<close>

fun member_of :: "json \<Rightarrow> string \<Rightarrow> json option" where
  "member_of (JObj kvs) k = map_of kvs k"
| "member_of _ k = None"

text \<open>JavaScript truthiness of a member that was read.\<close>

fun truthy :: "json option \<Rightarrow> bool" where
  "truthy None = False"
| "truthy (Some JNull) = False"
| "truthy (Some (JBool b)) = b"
| "truthy (Some (JNum r)) = (r \<noteq> 0)"
| "truthy (Some (JStr s)) = (s \<noteq> [])"
| "truthy (Some (JArr _)) = True"
| "truthy (Some (JObj _)) = True"

section \<open>spec-stream.ts: the line classifier and the stream buffer\<close>

text \<open>\<open>ParsedLine\<close> of types.ts. The data of a patch line is the parsed value, cast unchecked.\<close>

datatype ParsedLine = Patch json | Text string

text \<open>
  \<open>parseSpecLine\<close>. \<open>JSON.parse\<close> is the runtime's; it is a parameter, \<open>None\<close> when it
  throws. Both the syntax error of \<open>JSON.parse\<close> and the type error of reading a member of
  \<open>null\<close> end in the same \<open>catch\<close>.
\<close>

definition parseSpecLine :: "(string \<Rightarrow> json option) \<Rightarrow> string \<Rightarrow> ParsedLine option" where
  "parseSpecLine JSON_parse line =
     (let trimmed = trim line in
      if trimmed = [] then None
      else (case JSON_parse trimmed of
              None \<Rightarrow> Some (Text line)
            | Some JNull \<Rightarrow> Some (Text line)
            | Some parsed \<Rightarrow>
                if truthy (member_of parsed ''op'') \<and> truthy (member_of parsed ''path'')
                then Some (Patch parsed)
                else Some (Text line)))"

text \<open>
  \<open>SpecStreamBuffer\<close>: its one field is the string \<open>buffer\<close>, passed in and returned.
  \<open>processChunk\<close> returns the parsed lines and the new buffer.
\<close>

definition processChunk ::
  "(string \<Rightarrow> json option) \<Rightarrow> string \<Rightarrow> string \<Rightarrow> ParsedLine list \<times> string" where
  "processChunk JSON_parse buffer chunk =
     (let (lines, buffer') = split_pop (buffer @ chunk)
      in (List.map_filter (parseSpecLine JSON_parse) lines, buffer'))"

definition flush :: "(string \<Rightarrow> json option) \<Rightarrow> string \<Rightarrow> ParsedLine option \<times> string" where
  "flush JSON_parse buffer =
     (if trim buffer = [] then (None, buffer)
      else (parseSpecLine JSON_parse buffer, []))"

section \<open>spec-stream.ts: applying patches\<close>

text \<open>
  \<open>Spec\<close> of @json-render/core, as the code types it: the root identifier, the elements
  by identifier and the optional state tree. Elements and state are JSON values that
  this code never inspects.
\<close>

record Spec =
  root :: string
  elements :: "(string \<times> json) list"
  state :: "json option"

text \<open>
  What a failed operation throws: a failed patch application, a failed read, or
  \<open>JSON.stringify\<close> on a circular structure.
\<close>

datatype error = InvalidPatchPath | PatchTestFailed | ReadFailed | NotSerializable

text \<open>
  \<open>applySpecPatch\<close>. \<open>applySpecStreamPatch\<close> belongs to @json-render/core and is a
  parameter \<open>engine\<close>: given the cloned document and the patch it returns the document
  it updated in place, or throws. \<open>JSON.parse(JSON.stringify(spec))\<close> rebuilds the
  document from its own JSON text, so on values it is the identity; the objects it
  creates are the subject of the store model further down, where the copy of a document
  is shown to have the value of the original (\<open>JSON_stringify_alloc\<close>).
\<close>

definition json_clone :: "Spec \<Rightarrow> Spec" where
  "json_clone spec = spec"

definition applySpecPatch :: "(Spec \<Rightarrow> 'p \<Rightarrow> error + Spec) \<Rightarrow> Spec \<Rightarrow> 'p \<Rightarrow> error + Spec" where
  "applySpecPatch engine spec patch = (let nextSpec = json_clone spec in engine nextSpec patch)"

text \<open>\<open>{ root: "", elements: {} }\<close>\<close>

definition empty_Spec :: Spec where
  "empty_Spec = \<lparr>root = [], elements = [], state = None\<rparr>"

text \<open>\<open>SpecPatch\<close> of types.ts; the fields \<open>value\<close> and \<open>from\<close> are optional.\<close>

datatype SpecPatchOperation = Add | Remove | Replace | Move | Copy | Test

record SpecPatch =
  op :: SpecPatchOperation
  path :: string
  pvalue :: "json option"
  pfrom :: "string option"

text \<open>
  \<open>/^\/elements\/[^/]+$/.exec(patch.path)\<close>: the match is the whole path, when it is
  \<open>/elements/\<close> followed by one or more characters other than a slash.
\<close>

definition directElementPath :: "string \<Rightarrow> string option" where
  "directElementPath p =
     (if take 10 p = ''/elements/'' \<and> drop 10 p \<noteq> [] \<and> CHR ''/'' \<notin> set (drop 10 p)
      then Some p else None)"

text \<open>
  \<open>buildSpec\<close>: the loop over the patches, with \<open>spec\<close> and \<open>firstElementKey\<close>
  (\<open>None\<close> for \<open>null\<close>); a throw of \<open>applySpecPatch\<close> leaves \<open>buildSpec\<close>.
\<close>

fun buildSpec_loop ::
  "(Spec \<Rightarrow> SpecPatch \<Rightarrow> error + Spec) \<Rightarrow> Spec \<Rightarrow> string option \<Rightarrow> SpecPatch list
     \<Rightarrow> error + Spec \<times> string option" where
  "buildSpec_loop engine spec firstElementKey [] = Inr (spec, firstElementKey)"
| "buildSpec_loop engine spec firstElementKey (patch # rest) =
     (let m = directElementPath (path patch);
          firstElementKey' =
            (if m \<noteq> None \<and> (op patch = Add \<or> op patch = Replace)
                \<and> (firstElementKey = None \<or> firstElementKey = Some [])
             then Some (drop (length ''/elements/'') (the m))
             else firstElementKey)
      in case applySpecPatch engine spec patch of
           Inl e \<Rightarrow> Inl e
         | Inr spec' \<Rightarrow> buildSpec_loop engine spec' firstElementKey' rest)"

definition buildSpec :: "(Spec \<Rightarrow> SpecPatch \<Rightarrow> error + Spec) \<Rightarrow> SpecPatch list \<Rightarrow> error + Spec" where
  "buildSpec engine patches =
     (case buildSpec_loop engine empty_Spec None patches of
        Inl e \<Rightarrow> Inl e
      | Inr (spec, firstElementKey) \<Rightarrow>
          Inr (if root spec = [] \<and> firstElementKey \<noteq> None \<and> firstElementKey \<noteq> Some []
               then spec\<lparr>root := the firstElementKey\<rparr> else spec))"

section \<open>transport.ts: the response stream\<close>

text \<open>
  The chunks read from the response, after \<open>JSON.parse(jsonLine) as UIMessageChunk\<close>:
  the three text chunks with their identifier, and every other chunk with its parsed value.
  A text-delta chunk carries a string, as its type says.
\<close>

datatype UIMessageChunk =
    TextStart string
  | TextDelta string string
  | TextEnd string
  | OtherChunk json

text \<open>
  The chunks the transport enqueues. \<open>DataUIText k t\<close> is
  \<open>{type: "data-ui-text", id: `ui-text-${k}`, data: {segmentId: `seg-${k}`, text: t}}\<close>,
  \<open>DataUI s\<close> is \<open>{type: "data-ui", id: "ui", data: s}\<close>, and \<open>Forwarded v\<close> is a chunk
  passed through unchanged.
\<close>

datatype out_chunk = DataUIText nat string | DataUI Spec | Forwarded json

text \<open>
  The variables \<open>processResponseStream\<close> closes over (\<open>specBuffer\<close> is the buffer of
  the one \<open>SpecStreamBuffer\<close>) and the chunks enqueued on the controller so far.
\<close>

record transport_state =
  specBuffer :: string
  currentSpec :: Spec
  segmentIndex :: nat
  currentSegmentText :: string
  enqueued :: "out_chunk list"

definition initial_state :: transport_state where
  "initial_state =
     \<lparr>specBuffer = [], currentSpec = empty_Spec, segmentIndex = 0,
      currentSegmentText = [], enqueued = []\<rparr>"

definition emitUIText :: "transport_state \<Rightarrow> string \<Rightarrow> transport_state" where
  "emitUIText st text =
     st\<lparr>currentSegmentText := currentSegmentText st @ text,
        enqueued := enqueued st @ [DataUIText (segmentIndex st) (currentSegmentText st @ text)]\<rparr>"

definition splitTextSegment :: "transport_state \<Rightarrow> transport_state" where
  "splitTextSegment st =
     (if currentSegmentText st = [] then st
      else st\<lparr>segmentIndex := segmentIndex st + 1, currentSegmentText := []\<rparr>)"

text \<open>
  The patch branch (the same statements under text-delta and under text-end): split the
  segment, apply the patch, enqueue the document. A throw of \<open>applySpecPatch\<close> leaves
  the branch after the split, before the assignment to \<open>currentSpec\<close>; the result
  carries the state reached and the error thrown, if any.
\<close>

definition applyPatchLine ::
  "(Spec \<Rightarrow> json \<Rightarrow> error + Spec) \<Rightarrow> transport_state \<Rightarrow> json \<Rightarrow> error option \<times> transport_state" where
  "applyPatchLine engine st d =
     (let st1 = splitTextSegment st in
      case applySpecPatch engine (currentSpec st1) d of
        Inl e \<Rightarrow> (Some e, st1)
      | Inr spec' \<Rightarrow> (None, st1\<lparr>currentSpec := spec', enqueued := enqueued st1 @ [DataUI spec']\<rparr>))"

text \<open>The body of \<open>for (const item of parsed)\<close>, and the loop: a throw ends it.\<close>

definition processItem ::
  "(Spec \<Rightarrow> json \<Rightarrow> error + Spec) \<Rightarrow> transport_state \<Rightarrow> ParsedLine \<Rightarrow> error option \<times> transport_state" where
  "processItem engine st item =
     (case item of
        Patch d \<Rightarrow> applyPatchLine engine st d
      | Text content \<Rightarrow> (None, emitUIText st (content @ [newline])))"

fun processItems ::
  "(Spec \<Rightarrow> json \<Rightarrow> error + Spec) \<Rightarrow> transport_state \<Rightarrow> ParsedLine list \<Rightarrow> error option \<times> transport_state" where
  "processItems engine st [] = (None, st)"
| "processItems engine st (item # items) =
     (case processItem engine st item of
        (Some e, st') \<Rightarrow> (Some e, st')
      | (None, st') \<Rightarrow> processItems engine st' items)"

text \<open>
  The \<open>try\<close> block of \<open>processLine\<close> from the parsed chunk on. The identifier of a text
  chunk is not read.
\<close>

definition handleChunk ::
  "(string \<Rightarrow> json option) \<Rightarrow> (Spec \<Rightarrow> json \<Rightarrow> error + Spec) \<Rightarrow> transport_state \<Rightarrow> UIMessageChunk
     \<Rightarrow> error option \<times> transport_state" where
  "handleChunk JSON_parse engine st chunk =
     (case chunk of
        TextDelta i delta \<Rightarrow>
          (let (parsed, buffer') = processChunk JSON_parse (specBuffer st) delta
           in processItems engine (st\<lparr>specBuffer := buffer'\<rparr>) parsed)
      | TextEnd i \<Rightarrow>
          (let (remaining, buffer') = flush JSON_parse (specBuffer st);
               st1 = st\<lparr>specBuffer := buffer'\<rparr>
           in case remaining of
                None \<Rightarrow> (None, splitTextSegment st1)
              | Some (Patch d) \<Rightarrow>
                  (case applyPatchLine engine st1 d of
                     (Some e, st2) \<Rightarrow> (Some e, st2)
                   | (None, st2) \<Rightarrow> (None, splitTextSegment st2))
              | Some (Text content) \<Rightarrow> (None, splitTextSegment (emitUIText st1 content)))
      | TextStart i \<Rightarrow> (None, st)
      | OtherChunk v \<Rightarrow> (None, st\<lparr>enqueued := enqueued st @ [Forwarded v]\<rparr>))"

text \<open>
  \<open>processLine\<close>. \<open>parse_chunk\<close> stands for \<open>JSON.parse(jsonLine) as UIMessageChunk\<close>:
  \<open>None\<close> when \<open>JSON.parse\<close> throws or the value is \<open>null\<close> (reading its type throws).
  Whatever the \<open>try\<close> block throws, the \<open>catch\<close> drops it: the state reached stays.
\<close>

definition processLine ::
  "(string \<Rightarrow> UIMessageChunk option) \<Rightarrow> (string \<Rightarrow> json option) \<Rightarrow> (Spec \<Rightarrow> json \<Rightarrow> error + Spec)
     \<Rightarrow> transport_state \<Rightarrow> string \<Rightarrow> transport_state" where
  "processLine parse_chunk JSON_parse engine st line =
     (if trim line = [] then st
      else
        (let jsonLine = trim line;
             jsonLine = (if take 5 jsonLine = ''data:'' then trimStart (drop 5 jsonLine) else jsonLine)
         in if jsonLine = ''[DONE]'' then st
            else (case parse_chunk jsonLine of
                    None \<Rightarrow> st
                  | Some chunk \<Rightarrow> snd (handleChunk JSON_parse engine st chunk))))"

text \<open>
  The read loop of \<open>start\<close>. The response is the list of what \<open>reader.read()\<close> gives
  until it is done: decoded text, or a rejection. The decoder has nothing pending at the
  end. The loop returns the state, the outer line buffer, and the rejection if any.
\<close>

fun read_loop ::
  "(string \<Rightarrow> UIMessageChunk option) \<Rightarrow> (string \<Rightarrow> json option) \<Rightarrow> (Spec \<Rightarrow> json \<Rightarrow> error + Spec)
     \<Rightarrow> transport_state \<Rightarrow> string \<Rightarrow> (error + string) list \<Rightarrow> error option \<times> transport_state \<times> string" where
  "read_loop parse_chunk JSON_parse engine st buffer [] = (None, st, buffer)"
| "read_loop parse_chunk JSON_parse engine st buffer (Inl e # rest) = (Some e, st, buffer)"
| "read_loop parse_chunk JSON_parse engine st buffer (Inr v # rest) =
     (let (lines, buffer') = split_pop (buffer @ v)
      in read_loop parse_chunk JSON_parse engine
           (foldl (processLine parse_chunk JSON_parse engine) st lines) buffer' rest)"

text \<open>How the returned stream ends: \<open>controller.close()\<close> or \<open>controller.error(error)\<close>.\<close>

datatype outcome = Closed | Errored error

definition processResponseStream ::
  "(string \<Rightarrow> UIMessageChunk option) \<Rightarrow> (string \<Rightarrow> json option) \<Rightarrow> (Spec \<Rightarrow> json \<Rightarrow> error + Spec)
     \<Rightarrow> (error + string) list \<Rightarrow> out_chunk list \<times> outcome" where
  "processResponseStream parse_chunk JSON_parse engine reads =
     (case read_loop parse_chunk JSON_parse engine initial_state [] reads of
        (Some e, st, buffer) \<Rightarrow> (enqueued st, Errored e)
      | (None, st, buffer) \<Rightarrow>
          (let st' = (if trim buffer \<noteq> [] then processLine parse_chunk JSON_parse engine st buffer
                      else st)
           in (enqueued st', Closed)))"

section \<open>A store of objects, for object identity\<close>

text \<open>
  Where a claim is about which objects a call creates or changes, values are not enough.
  Here a JavaScript object or array lives in a store at an address; a value is a primitive
  or a reference to an address, and an allocation appends to the store, so the addresses
  in use are those below its length.
\<close>

type_synonym addr = nat

datatype hval = VNull | VBool bool | VNum real | VStr string | VRef addr

datatype hobj = HObject "(string \<times> hval) list" | HArray "hval list"

type_synonym store = "hobj list"

fun children :: "hobj \<Rightarrow> hval list" where
  "children (HObject kvs) = map snd kvs"
| "children (HArray vs) = vs"

text \<open>The objects reachable from an address through references.\<close>

inductive_set reach :: "store \<Rightarrow> addr \<Rightarrow> addr set" for h :: store and a :: addr where
  start: "a \<in> reach h a"
| step: "x \<in> reach h a \<Longrightarrow> x < length h \<Longrightarrow> VRef y \<in> set (children (h ! x)) \<Longrightarrow> y \<in> reach h a"

text \<open>
  \<open>JSON.stringify\<close>, its text identified with the value it denotes. It throws on a
  circular structure; a structure that is not circular nests no deeper than the number of
  objects of the store, so with that much fuel \<open>None\<close> stands for the throw.
\<close>

fun stringify :: "nat \<Rightarrow> store \<Rightarrow> hval \<Rightarrow> json option" where
  "stringify n h VNull = Some JNull"
| "stringify n h (VBool b) = Some (JBool b)"
| "stringify n h (VNum r) = Some (JNum r)"
| "stringify n h (VStr s) = Some (JStr s)"
| "stringify 0 h (VRef a) = None"
| "stringify (Suc n) h (VRef a) =
     (if a < length h then
        (case h ! a of
           HObject kvs \<Rightarrow>
             map_option JObj (those (map (\<lambda>(k, v). map_option (Pair k) (stringify n h v)) kvs))
         | HArray vs \<Rightarrow> map_option JArr (those (map (stringify n h) vs)))
      else None)"

definition JSON_stringify :: "store \<Rightarrow> hval \<Rightarrow> json option" where
  "JSON_stringify h v = stringify (length h) h v"

text \<open>\<open>JSON.parse\<close> of that text: every array and object of the value is a new object.\<close>

fun alloc :: "json \<Rightarrow> store \<Rightarrow> hval \<times> store"
  and alloc_list :: "json list \<Rightarrow> store \<Rightarrow> hval list \<times> store"
  and alloc_members :: "(string \<times> json) list \<Rightarrow> store \<Rightarrow> (string \<times> hval) list \<times> store" where
  "alloc JNull h = (VNull, h)"
| "alloc (JBool b) h = (VBool b, h)"
| "alloc (JNum r) h = (VNum r, h)"
| "alloc (JStr s) h = (VStr s, h)"
| "alloc (JArr vs) h = (let (ws, h') = alloc_list vs h in (VRef (length h'), h' @ [HArray ws]))"
| "alloc (JObj kvs) h = (let (ms, h') = alloc_members kvs h in (VRef (length h'), h' @ [HObject ms]))"
| "alloc_list [] h = ([], h)"
| "alloc_list (v # vs) h =
     (let (w, h') = alloc v h; (ws, h'') = alloc_list vs h' in (w # ws, h''))"
| "alloc_members [] h = ([], h)"
| "alloc_members ((k, v) # kvs) h =
     (let (w, h') = alloc v h; (ms, h'') = alloc_members kvs h' in ((k, w) # ms, h''))"

text \<open>
  \<open>applySpecPatch\<close> on the store. The document is the object at \<open>spec\<close>; the patch is a
  value, sharing no object with the document. \<open>engine\<close> is \<open>applySpecStreamPatch\<close>: it
  changes the store in place and may throw. The result is the store after the call, and
  the address returned or the error thrown. (What is parsed back from the text of an object
  is a reference; the last case does not arise.)
\<close>

definition applySpecPatch_store ::
  "(store \<Rightarrow> addr \<Rightarrow> 'p \<Rightarrow> store \<times> error option) \<Rightarrow> store \<Rightarrow> addr \<Rightarrow> 'p \<Rightarrow> store \<times> (error + addr)" where
  "applySpecPatch_store engine h spec patch =
     (case JSON_stringify h (VRef spec) of
        None \<Rightarrow> (h, Inl NotSerializable)
      | Some text \<Rightarrow>
          (case alloc text h of
             (VRef nextSpec, h1) \<Rightarrow>
               (case engine h1 nextSpec patch of
                  (h2, Some e) \<Rightarrow> (h2, Inl e)
                | (h2, None) \<Rightarrow> (h2, Inr nextSpec))
           | (_, h1) \<Rightarrow> (h1, Inl NotSerializable)))"

text \<open>
  What is assumed of \<open>applySpecStreamPatch\<close>, which mutates the object it is given: it
  writes only to objects reachable from that object and to objects it allocates, and what
  is reachable from that object afterwards was so before or is newly allocated.
\<close>

definition frame :: "(store \<Rightarrow> addr \<Rightarrow> 'p \<Rightarrow> store \<times> error option) \<Rightarrow> bool" where
  "frame engine =
     (\<forall>h a p.
        length h \<le> length (fst (engine h a p))
        \<and> (\<forall>x. x < length h \<and> x \<notin> reach h a \<longrightarrow> fst (engine h a p) ! x = h ! x)
        \<and> reach (fst (engine h a p)) a \<subseteq> reach h a \<union> {x. length h \<le> x})"

text \<open>
  For the proofs: the objects of a store from address \<open>n\<close> on refer only to addresses
  from \<open>n\<close> on, and so do the references among some values.
\<close>

definition fresh_from :: "nat \<Rightarrow> store \<Rightarrow> bool" where
  "fresh_from n h = (\<forall>x y. n \<le> x \<and> x < length h \<and> VRef y \<in> set (children (h ! x)) \<longrightarrow> n \<le> y)"

definition refs_from :: "nat \<Rightarrow> hval list \<Rightarrow> bool" where
  "refs_from n vs = (\<forall>y. VRef y \<in> set vs \<longrightarrow> n \<le> y)"

text \<open>An engine for the example: it assigns the member \<open>root\<close> of the object it is given.\<close>

definition set_root_in_place :: "store \<Rightarrow> addr \<Rightarrow> string \<Rightarrow> store \<times> error option" where
  "set_root_in_place h a r =
     (if a < length h then
        (case h ! a of
           HObject kvs \<Rightarrow> (h[a := HObject (AList.update ''root'' (VStr r) kvs)], None)
         | HArray vs \<Rightarrow> (h, Some InvalidPatchPath))
      else (h, Some InvalidPatchPath))"

text \<open>
  An engine that writes before it throws: it assigns the member \<open>root\<close> as the engine
  above does, then throws.
\<close>

definition set_root_then_throw :: "store \<Rightarrow> addr \<Rightarrow> string \<Rightarrow> store \<times> error option" where
  "set_root_then_throw h a r = (fst (set_root_in_place h a r), Some PatchTestFailed)"

text \<open>
  The document part of the patch branch on the store:
  \<open>currentSpec = applySpecPatch(currentSpec, line.data)\<close> and
  \<open>controller.enqueue({type: "data-ui", id: "ui", data: currentSpec})\<close>. The variable
  \<open>currentSpec\<close> holds a reference, and so does every chunk enqueued. A throw of
  \<open>applySpecPatch\<close> leaves the branch before the assignment, with whatever the engine
  wrote into the store. (The split of the text segment before the call touches no object.)
\<close>

record document_refs =
  objects :: store
  currentSpec_ref :: addr
  enqueued_refs :: "addr list"

definition applyPatchLine_store ::
  "(store \<Rightarrow> addr \<Rightarrow> 'p \<Rightarrow> store \<times> error option) \<Rightarrow> document_refs \<Rightarrow> 'p
     \<Rightarrow> error option \<times> document_refs" where
  "applyPatchLine_store engine r patch =
     (case applySpecPatch_store engine (objects r) (currentSpec_ref r) patch of
        (h, Inl e) \<Rightarrow> (Some e, r\<lparr>objects := h\<rparr>)
      | (h, Inr a) \<Rightarrow>
          (None, r\<lparr>objects := h, currentSpec_ref := a, enqueued_refs := enqueued_refs r @ [a]\<rparr>))"

section \<open>The specification's wording, for comparison\<close>

text \<open>
  The document builder as the specification words it: fold the patches from the empty
  document, threading the result forward.
\<close>

fun fold_patches :: "(Spec \<Rightarrow> SpecPatch \<Rightarrow> error + Spec) \<Rightarrow> Spec \<Rightarrow> SpecPatch list \<Rightarrow> error + Spec" where
  "fold_patches engine d [] = Inr d"
| "fold_patches engine d (p # ps) =
     (case applySpecPatch engine d p of Inl e \<Rightarrow> Inl e | Inr d' \<Rightarrow> fold_patches engine d' ps)"

text \<open>
  A segment of a pointer path read as the specification reads it (section 4.3): \<open>~1\<close>
  decodes to a slash and \<open>~0\<close> to a tilde.
\<close>

fun unescape :: "string \<Rightarrow> string" where
  "unescape (a # b # cs) =
     (if a = CHR ''~'' \<and> b = CHR ''1'' then CHR ''/'' # unescape cs
      else if a = CHR ''~'' \<and> b = CHR ''0'' then CHR ''~'' # unescape cs
      else a # unescape (b # cs))"
| "unescape cs = cs"

text \<open>
  The identifier of a patch that directly adds or replaces an entry at
  \<open>/elements/<id>\<close> (one segment, no nested field): the identifier that the segment
  denotes, decoded; and the first such identifier in patch order.
\<close>

definition element_id :: "SpecPatch \<Rightarrow> string option" where
  "element_id p =
     (if (op p = Add \<or> op p = Replace) \<and> take 10 (path p) = ''/elements/''
         \<and> drop 10 (path p) \<noteq> [] \<and> CHR ''/'' \<notin> set (drop 10 (path p))
      then Some (unescape (drop 10 (path p))) else None)"

fun first_element_id :: "SpecPatch list \<Rightarrow> string option" where
  "first_element_id [] = None"
| "first_element_id (p # ps) =
     (case element_id p of Some i \<Rightarrow> Some i | None \<Rightarrow> first_element_id ps)"

text \<open>A sequence of fragments pushed into one buffer, one \<open>processChunk\<close> call each.\<close>

fun processChunks ::
  "(string \<Rightarrow> json option) \<Rightarrow> string \<Rightarrow> string list \<Rightarrow> ParsedLine list \<times> string" where
  "processChunks JSON_parse buffer [] = ([], buffer)"
| "processChunks JSON_parse buffer (chunk # chunks) =
     (let (parsed, buffer') = processChunk JSON_parse buffer chunk;
          (others, buffer'') = processChunks JSON_parse buffer' chunks
      in (parsed @ others, buffer''))"

text \<open>The segment indices of the text chunks enqueued, in order.\<close>

fun text_indices :: "out_chunk list \<Rightarrow> nat list" where
  "text_indices [] = []"
| "text_indices (DataUIText k t # cs) = k # text_indices cs"
| "text_indices (DataUI s # cs) = text_indices cs"
| "text_indices (Forwarded v # cs) = text_indices cs"

text \<open>
  Two relations between states of the transport, for the proofs. \<open>later st st'\<close>: from
  \<open>st\<close> to \<open>st'\<close> the counter has not gone down, chunks were only added to the queue,
  and the text chunks added carry an index from the counter of \<open>st\<close> on. \<open>dense st\<close>:
  the indices enqueued so far are in order and are exactly those below the counter, and
  the counter itself when the open segment has text.
\<close>

definition later :: "transport_state \<Rightarrow> transport_state \<Rightarrow> bool" where
  "later st st' =
     (segmentIndex st \<le> segmentIndex st' \<and>
      (\<exists>new. enqueued st' = enqueued st @ new
         \<and> (\<forall>k\<in>set (text_indices new). segmentIndex st \<le> k)))"

definition dense :: "transport_state \<Rightarrow> bool" where
  "dense st =
     (sorted (text_indices (enqueued st)) \<and>
      set (text_indices (enqueued st)) =
        {k. k < segmentIndex st \<or> (k = segmentIndex st \<and> currentSegmentText st \<noteq> [])})"

text \<open>The state in which \<open>start\<close> closes or fails the stream.\<close>

definition final_state ::
  "(string \<Rightarrow> UIMessageChunk option) \<Rightarrow> (string \<Rightarrow> json option) \<Rightarrow> (Spec \<Rightarrow> json \<Rightarrow> error + Spec)
     \<Rightarrow> (error + string) list \<Rightarrow> transport_state" where
  "final_state parse_chunk JSON_parse engine reads =
     (case read_loop parse_chunk JSON_parse engine initial_state [] reads of
        (Some e, st, buffer) \<Rightarrow> st
      | (None, st, buffer) \<Rightarrow>
          (if trim buffer \<noteq> [] then processLine parse_chunk JSON_parse engine st buffer else st))"

text \<open>A text chunk with its identifier renamed; other chunks carry none that the transport knows of.\<close>

fun with_id :: "(string \<Rightarrow> string) \<Rightarrow> UIMessageChunk \<Rightarrow> UIMessageChunk" where
  "with_id f (TextStart i) = TextStart (f i)"
| "with_id f (TextDelta i delta) = TextDelta (f i) delta"
| "with_id f (TextEnd i) = TextEnd (f i)"
| "with_id f (OtherChunk v) = OtherChunk v"

text \<open>The first rejected read of a response, if any.\<close>

fun first_rejection :: "(error + string) list \<Rightarrow> error option" where
  "first_rejection [] = None"
| "first_rejection (Inl e # rest) = Some e"
| "first_rejection (Inr v # rest) = first_rejection rest"

section \<open>A patch engine and parsers for the examples\<close>

text \<open>
  The places of a document that the engine below addresses: the root identifier, one
  element (its identifier the decoded path segment), the state tree.
\<close>

datatype location = AtRoot | AtElement string | AtState

definition locate :: "string \<Rightarrow> location option" where
  "locate p =
     (if p = ''/root'' then Some AtRoot
      else if p = ''/state'' then Some AtState
      else if take 10 p = ''/elements/'' \<and> drop 10 p \<noteq> [] \<and> CHR ''/'' \<notin> set (drop 10 p)
      then Some (AtElement (unescape (drop 10 p)))
      else None)"

definition value_at :: "Spec \<Rightarrow> location \<Rightarrow> json option" where
  "value_at d l =
     (case l of
        AtRoot \<Rightarrow> Some (JStr (root d))
      | AtElement i \<Rightarrow> map_of (elements d) i
      | AtState \<Rightarrow> state d)"

definition set_at :: "Spec \<Rightarrow> location \<Rightarrow> json \<Rightarrow> error + Spec" where
  "set_at d l v =
     (case l of
        AtRoot \<Rightarrow> (case v of JStr r \<Rightarrow> Inr (d\<lparr>root := r\<rparr>) | _ \<Rightarrow> Inl InvalidPatchPath)
      | AtElement i \<Rightarrow> Inr (d\<lparr>elements := AList.update i v (elements d)\<rparr>)
      | AtState \<Rightarrow> Inr (d\<lparr>state := Some v\<rparr>))"

definition remove_at :: "Spec \<Rightarrow> location \<Rightarrow> error + Spec" where
  "remove_at d l =
     (case l of
        AtRoot \<Rightarrow> Inl InvalidPatchPath
      | AtElement i \<Rightarrow> Inr (d\<lparr>elements := AList.delete i (elements d)\<rparr>)
      | AtState \<Rightarrow> Inr (d\<lparr>state := None\<rparr>))"

text \<open>
  Modelled from the spec: \<open>applySpecStreamPatch\<close> of @json-render/core is not under src/.
  Section 4.3 of the specification is followed for the three top-level locations
  \<open>/root\<close>, \<open>/elements/<id>\<close> and \<open>/state\<close>: add and replace set the value (at
  \<open>/root\<close> an identifier), remove deletes the entry and is a no-op when it is missing,
  move and copy take the value found at \<open>from\<close>, and test fails with
  \<open>PatchTestFailed\<close> on a mismatch. A path the specification resolves below these
  locations is outside this model, which rejects it with \<open>InvalidPatchPath\<close>. The
  engine is used only where an example needs a concrete one; the theorems hold for every
  engine.
\<close>

definition applySpecStreamPatch :: "Spec \<Rightarrow> SpecPatch \<Rightarrow> error + Spec" where
  "applySpecStreamPatch d p =
     (case locate (path p) of
        None \<Rightarrow> Inl InvalidPatchPath
      | Some l \<Rightarrow>
          (case op p of
             Add \<Rightarrow> (case pvalue p of Some v \<Rightarrow> set_at d l v | None \<Rightarrow> Inl InvalidPatchPath)
           | Replace \<Rightarrow> (case pvalue p of Some v \<Rightarrow> set_at d l v | None \<Rightarrow> Inl InvalidPatchPath)
           | Remove \<Rightarrow> remove_at d l
           | Move \<Rightarrow>
               (case Option.bind (pfrom p) locate of
                  None \<Rightarrow> Inl InvalidPatchPath
                | Some f \<Rightarrow>
                    (case value_at d f of
                       None \<Rightarrow> Inl InvalidPatchPath
                     | Some v \<Rightarrow>
                         (case remove_at d f of Inl e \<Rightarrow> Inl e | Inr d' \<Rightarrow> set_at d' l v)))
           | Copy \<Rightarrow>
               (case Option.bind (pfrom p) locate of
                  None \<Rightarrow> Inl InvalidPatchPath
                | Some f \<Rightarrow>
                    (case value_at d f of
                       None \<Rightarrow> Inl InvalidPatchPath
                     | Some v \<Rightarrow> set_at d l v))
           | Test \<Rightarrow> (if value_at d l = pvalue p then Inr d else Inl PatchTestFailed)))"

text \<open>The operation a string names.\<close>

definition operation_of :: "string \<Rightarrow> SpecPatchOperation option" where
  "operation_of s =
     map_of [(''add'', Add), (''remove'', Remove), (''replace'', Replace), (''move'', Move),
             (''copy'', Copy), (''test'', Test)] s"

text \<open>The members of a parsed value read as a \<open>SpecPatch\<close>, when it has that shape.\<close>

definition patch_of_json :: "json \<Rightarrow> SpecPatch option" where
  "patch_of_json v =
     (case (member_of v ''op'', member_of v ''path'') of
        (Some (JStr k), Some (JStr p)) \<Rightarrow>
          (case operation_of k of
             None \<Rightarrow> None
           | Some operation \<Rightarrow>
               Some \<lparr>op = operation, path = p, pvalue = member_of v ''value'',
                     pfrom = (case member_of v ''from'' of Some (JStr f) \<Rightarrow> Some f | _ \<Rightarrow> None)\<rparr>)
      | _ \<Rightarrow> None)"

text \<open>
  Modelled from the spec: \<open>applySpecStreamPatch\<close> again, on the data of a patch line,
  which is a parsed value cast unchecked: a value that has not the shape of a
  \<open>SpecPatch\<close> is rejected.
\<close>

definition applySpecStreamLine :: "Spec \<Rightarrow> json \<Rightarrow> error + Spec" where
  "applySpecStreamLine d v =
     (case patch_of_json v of None \<Rightarrow> Inl InvalidPatchPath | Some p \<Rightarrow> applySpecStreamPatch d p)"

text \<open>
  The lines of the examples. \<open>replace_root_line\<close> and \<open>test_root_line\<close> are patch lines as
  they stand in the text stream; \<open>sample_JSON_parse\<close> gives what \<open>JSON.parse\<close> returns
  for them and \<open>None\<close> for every other string, which is right for the strings the
  examples parse (plain words, no JSON).
\<close>

definition replace_root_line :: string where
  \<open>replace_root_line = ''{"op":"replace","path":"/root","value":"card1"}''\<close>

definition test_root_line :: string where
  \<open>test_root_line = ''{"op":"test","path":"/root","value":"card1"}''\<close>

definition sample_JSON_parse :: "string \<Rightarrow> json option" where
  "sample_JSON_parse =
     map_of
      [(replace_root_line,
        JObj [(''op'', JStr ''replace''), (''path'', JStr ''/root''), (''value'', JStr ''card1'')]),
       (test_root_line,
        JObj [(''op'', JStr ''test''), (''path'', JStr ''/root''), (''value'', JStr ''card1'')])]"

text \<open>
  The lines of a response as the server writes them: a text-delta and a text-end chunk in
  JSON, the delta with its quotes, backslashes and line terminators escaped.
  \<open>sample_parse_chunk\<close> reads back the lines of the examples.
\<close>

fun json_escape :: "string \<Rightarrow> string" where
  "json_escape [] = []"
| "json_escape (c # cs) =
     (if c = CHR 0x22 then CHR 0x5C # CHR 0x22 # json_escape cs
      else if c = CHR 0x5C then CHR 0x5C # CHR 0x5C # json_escape cs
      else if c = CHR 0x0A then CHR 0x5C # CHR ''n'' # json_escape cs
      else c # json_escape cs)"

definition text_delta_json :: "string \<Rightarrow> string \<Rightarrow> string" where
  \<open>text_delta_json i delta =
     ''{"type":"text-delta","id":"'' @ json_escape i @ ''","delta":"'' @ json_escape delta @ ''"}''\<close>

definition text_end_json :: "string \<Rightarrow> string" where
  \<open>text_end_json i = ''{"type":"text-end","id":"'' @ json_escape i @ ''"}''\<close>

definition sample_parse_chunk :: "string \<Rightarrow> UIMessageChunk option" where
  "sample_parse_chunk =
     map_of
      [(text_delta_json ''text1'' ''Hello'', TextDelta ''text1'' ''Hello''),
       (text_delta_json ''a'' ''foo'', TextDelta ''a'' ''foo''),
       (text_delta_json ''b'' ''bar'', TextDelta ''b'' ''bar''),
       (text_delta_json ''text1'' (''Before'' @ [newline]), TextDelta ''text1'' (''Before'' @ [newline])),
       (text_delta_json ''text1'' (replace_root_line @ [newline]),
        TextDelta ''text1'' (replace_root_line @ [newline])),
       (text_delta_json ''text1'' (''After'' @ [newline]), TextDelta ''text1'' (''After'' @ [newline])),
       (text_delta_json ''text1'' (test_root_line @ [newline]),
        TextDelta ''text1'' (test_root_line @ [newline])),
       (text_delta_json ''text1'' (test_root_line @ [newline] @ ''Hello'' @ [newline]),
        TextDelta ''text1'' (test_root_line @ [newline] @ ''Hello'' @ [newline])),
       (text_delta_json ''text1'' (''Hello'' @ [newline]), TextDelta ''text1'' (''Hello'' @ [newline])),
       (text_end_json ''text1'', TextEnd ''text1''),
       (text_end_json ''a'', TextEnd ''a'')]"

text \<open>One read of the response: a line of the event stream with its terminator.\<close>

definition sse :: "string \<Rightarrow> error + string" where
  "sse chunk_json = Inr (''data: '' @ chunk_json @ [newline])"

section \<open>Lines and white space\<close>

lemma split_nl_Cons [simp]:
  "split_nl (c # cs) =
     (if c = newline then [] # split_nl cs
      else (c # hd (split_nl cs)) # tl (split_nl cs))"
  by (simp add: Let_def)

declare split_nl.simps(2) [simp del]

lemma split_nl_nonempty: "split_nl s \<noteq> []"
  by (induction s) auto

lemma trim_empty_iff: "(trim s = []) = list_all is_space s"
proof
  assume "trim s = []"
  then have a: "\<forall>x\<in>set (dropWhile is_space s). is_space x"
    by (simp add: trim_def)
  have "dropWhile is_space s = []"
  proof (rule ccontr)
    assume n: "dropWhile is_space s \<noteq> []"
    then have "\<not> is_space (hd (dropWhile is_space s))" by (rule hd_dropWhile)
    moreover have "hd (dropWhile is_space s) \<in> set (dropWhile is_space s)" using n by simp
    ultimately show False using a by blast
  qed
  then show "list_all is_space s" by (simp add: list_all_iff)
next
  assume "list_all is_space s"
  then have d: "dropWhile is_space s = []" by (simp add: list_all_iff)
  show "trim s = []" unfolding trim_def d by simp
qed

lemma length_split_nl: "length (split_nl s) = Suc (count_list s newline)"
  using split_nl_nonempty by (induction s) (auto simp: )

lemma join_split_nl:
  "concat (map (\<lambda>l. l @ [newline]) (butlast (split_nl s))) @ last (split_nl s) = s"
proof (induction s)
  case Nil
  then show ?case by simp
next
  case (Cons c cs)
  obtain l ls where r: "split_nl cs = l # ls"
    using split_nl_nonempty[of cs] by (cases "split_nl cs") auto
  show ?case using Cons r by (cases ls) (auto)
qed

lemma split_nl_no_newline: "l \<in> set (split_nl s) \<Longrightarrow> newline \<notin> set l"
proof (induction s arbitrary: l)
  case Nil
  then show ?case by simp
next
  case (Cons c cs)
  obtain l' ls where r: "split_nl cs = l' # ls"
    using split_nl_nonempty[of cs] by (cases "split_nl cs") auto
  then show ?case using Cons
    by (auto split: if_splits)
qed

lemma split_nl_append:
  "split_nl (s @ t) = butlast (split_nl s) @ split_nl (last (split_nl s) @ t)"
proof (induction s)
  case Nil
  then show ?case by simp
next
  case (Cons c cs)
  obtain l ls where r: "split_nl cs = l # ls"
    using split_nl_nonempty[of cs] by (cases "split_nl cs") auto
  obtain l2 ls2 where r2: "split_nl (last (split_nl cs) @ t) = l2 # ls2"
    using split_nl_nonempty[of "last (split_nl cs) @ t"] by (cases "split_nl (last (split_nl cs) @ t)") auto
  show ?case using Cons r r2 by (cases ls) (auto)
qed


lemma map_filter_app: "List.map_filter f (xs @ ys) = List.map_filter f xs @ List.map_filter f ys"
  by (simp add: List.map_filter_def)

lemma length_map_filter: "length (List.map_filter f xs) = length (filter (\<lambda>x. f x \<noteq> None) xs)"
  by (simp add: List.map_filter_def)

lemma parseSpecLine_None_iff: "(parseSpecLine P line = None) = list_all is_space line"
  by (auto simp: parseSpecLine_def trim_empty_iff Let_def split: option.splits json.splits)

lemma split_nl_single: "newline \<notin> set b \<Longrightarrow> split_nl b = [b]"
  by (induction b) auto

lemma last_split_nl_no_newline: "newline \<notin> set (last (split_nl s))"
  using split_nl_no_newline[of "last (split_nl s)" s] split_nl_nonempty[of s] by simp

lemma processChunks_split:
  "newline \<notin> set b \<Longrightarrow>
   processChunks P b fs =
     (List.map_filter (parseSpecLine P) (butlast (split_nl (b @ concat fs))),
      last (split_nl (b @ concat fs)))"
proof (induction fs arbitrary: b)
  case Nil
  then show ?case by (simp add: split_nl_single map_filter_simps)
next
  case (Cons c cs)
  have sp: "split_nl (b @ c @ concat cs) =
      butlast (split_nl (b @ c)) @ split_nl (last (split_nl (b @ c)) @ concat cs)"
    using split_nl_append[of "b @ c" "concat cs"] by simp
  have ne: "split_nl (last (split_nl (b @ c)) @ concat cs) \<noteq> []" by (rule split_nl_nonempty)
  show ?case
    using Cons.IH[OF last_split_nl_no_newline[of "b @ c"]] ne
    by (simp add: processChunk_def split_pop_def sp butlast_append map_filter_app)
qed

section \<open>The line classifier\<close>

text \<open>
  Claim C4. For every input line the classifier is a three-way case split: a line that
  is empty or all white space yields nothing; a line whose trimmed form fails to parse, or
  parses to a value without a truthy \<open>op\<close> or without a truthy \<open>path\<close>, yields Text with
  the original, untrimmed line as its content; a line that parses to a value with both
  yields Patch with the parsed value, unvalidated.
\<close>

theorem parseSpecLine_three_way: "parseSpecLine JSON_parse line =
     (if list_all is_space line then None
      else case JSON_parse (trim line) of None \<Rightarrow> Some (Text line)
           | Some v \<Rightarrow> if truthy (member_of v ''op'') \<and> truthy (member_of v ''path'') then Some (Patch v) else Some (Text line))"
  by (auto simp: parseSpecLine_def trim_empty_iff Let_def split: option.splits json.splits)

section \<open>The stream buffer\<close>

text \<open>
  Claim C3, as amended. For fragments pushed one after the other into an empty buffer,
  whose concatenation holds N line terminators: the buffer splits off exactly N complete
  lines, in order, and they reproduce the text verbatim without the terminators, the
  unterminated tail staying in the buffer. What it yields is the classification of these
  lines, in order, a blank line yielding nothing: as many results as there are complete
  lines that are not blank. \<open>flush\<close> returns nothing when the buffer is empty or all
  white space; otherwise it returns the buffered tail as one last line, classified (a
  Text with that tail, or a Patch), and clears the buffer.
\<close>

theorem SpecStreamBuffer_reassembly:
  "processChunks JSON_parse [] fragments =
     (List.map_filter (parseSpecLine JSON_parse) (fst (split_pop (concat fragments))),
      snd (split_pop (concat fragments)))
   \<and> length (fst (split_pop (concat fragments))) = count_list (concat fragments) newline
   \<and> concat (map (\<lambda>l. l @ [newline]) (fst (split_pop (concat fragments))))
        @ snd (split_pop (concat fragments)) = concat fragments
   \<and> length (fst (processChunks JSON_parse [] fragments)) =
        length (filter (\<lambda>l. \<not> list_all is_space l) (fst (split_pop (concat fragments))))
   \<and> fst (flush JSON_parse buffer) =
        (if list_all is_space buffer then None else parseSpecLine JSON_parse buffer)
   \<and> (\<not> list_all is_space buffer \<longrightarrow> snd (flush JSON_parse buffer) = [])
   \<and> (list_all is_space buffer \<or> parseSpecLine JSON_parse buffer = Some (Text buffer)
        \<or> (\<exists>v. parseSpecLine JSON_parse buffer = Some (Patch v)))"
proof -
  have a: "processChunks JSON_parse [] fragments =
     (List.map_filter (parseSpecLine JSON_parse) (fst (split_pop (concat fragments))),
      snd (split_pop (concat fragments)))"
    using processChunks_split[of "[]" JSON_parse fragments] by (simp add: split_pop_def)
  have b: "length (fst (split_pop (concat fragments))) = count_list (concat fragments) newline"
    by (simp add: split_pop_def length_split_nl)
  have c: "concat (map (\<lambda>l. l @ [newline]) (fst (split_pop (concat fragments))))
        @ snd (split_pop (concat fragments)) = concat fragments"
    using join_split_nl[of "concat fragments"] by (simp add: split_pop_def)
  have d: "length (fst (processChunks JSON_parse [] fragments)) =
        length (filter (\<lambda>l. \<not> list_all is_space l) (fst (split_pop (concat fragments))))"
    unfolding a by (simp add: length_map_filter parseSpecLine_None_iff)
  have e: "fst (flush JSON_parse buffer) =
        (if list_all is_space buffer then None else parseSpecLine JSON_parse buffer)"
    by (simp add: flush_def trim_empty_iff)
  have g: "\<not> list_all is_space buffer \<longrightarrow> snd (flush JSON_parse buffer) = []"
    by (simp add: flush_def trim_empty_iff)
  have f: "list_all is_space buffer \<or> parseSpecLine JSON_parse buffer = Some (Text buffer)
        \<or> (\<exists>v. parseSpecLine JSON_parse buffer = Some (Patch v))"
    by (auto simp: parseSpecLine_def trim_empty_iff Let_def split: option.splits json.splits)
  show ?thesis using a b c d e g f by blast
qed

text \<open>
  The theorem of the stream buffer at two fragments that cut a line in two, with the
  tail Hello left in the buffer, and the flush of that tail.
\<close>

theorem SpecStreamBuffer_reassembly_witness:
  "processChunks sample_JSON_parse [] [''Be'', ''fore'' @ [newline] @ ''Hello''] = ([Text ''Before''], ''Hello'')
   \<and> \<not> list_all is_space ''Hello''
   \<and> flush sample_JSON_parse ''Hello'' = (Some (Text ''Hello''), [])
   \<and> fst (flush sample_JSON_parse [newline]) = None"
proof -
  have h: "\<not> list_all is_space ''Hello''" by code_simp
  have p: "parseSpecLine sample_JSON_parse ''Hello'' = Some (Text ''Hello'')" by code_simp
  have s: "split_pop (concat [''Be'', ''fore'' @ [newline] @ ''Hello'']) = ([''Before''], ''Hello'')"
    by code_simp
  have q: "parseSpecLine sample_JSON_parse ''Before'' = Some (Text ''Before'')" by code_simp
  have w: "list_all is_space [newline]" by code_simp
  note t = SpecStreamBuffer_reassembly[of sample_JSON_parse "[''Be'', ''fore'' @ [newline] @ ''Hello'']" "''Hello''"]
  note u = SpecStreamBuffer_reassembly[of sample_JSON_parse "[]" "[newline]"]
  have a: "processChunks sample_JSON_parse [] [''Be'', ''fore'' @ [newline] @ ''Hello''] =
      (List.map_filter (parseSpecLine sample_JSON_parse) [''Before''], ''Hello'')"
    using t unfolding s by simp
  have a': "processChunks sample_JSON_parse [] [''Be'', ''fore'' @ [newline] @ ''Hello''] = ([Text ''Before''], ''Hello'')"
    unfolding a by (simp add: List.map_filter_simps q)
  have b: "fst (flush sample_JSON_parse ''Hello'') = Some (Text ''Hello'')"
    using t h p by simp
  have c: "snd (flush sample_JSON_parse ''Hello'') = []"
    using t h by blast
  have d: "fst (flush sample_JSON_parse [newline]) = None"
    using u w by simp
  have bc: "flush sample_JSON_parse ''Hello'' = (Some (Text ''Hello''), [])"
    using b c by (simp add: prod_eq_iff)
  show ?thesis using a' h bc d by blast
qed

text \<open>
  As claim C3 states it, the buffer would yield two lines for two terminators; for the two
  blank lines of this fragment it yields none.
\<close>

theorem SpecStreamBuffer_skips_blank_lines:
  "count_list [newline, newline] newline = 2
   \<and> fst (processChunks sample_JSON_parse [] [[newline, newline]]) = []"
  by code_simp

section \<open>The transport: how the queue and the segment counter evolve\<close>

lemma text_indices_append [simp]: "text_indices (xs @ ys) = text_indices xs @ text_indices ys"
  by (induction xs rule: text_indices.induct) simp_all

lemma later_refl: "later st st"
  by (simp add: later_def)

lemma later_trans: "later a b \<Longrightarrow> later b c \<Longrightarrow> later a c"
  unfolding later_def by (fastforce)

lemma emitUIText_fields [simp]:
  "specBuffer (emitUIText st t) = specBuffer st"
  "currentSpec (emitUIText st t) = currentSpec st"
  "segmentIndex (emitUIText st t) = segmentIndex st"
  "currentSegmentText (emitUIText st t) = currentSegmentText st @ t"
  "enqueued (emitUIText st t) = enqueued st @ [DataUIText (segmentIndex st) (currentSegmentText st @ t)]"
  by (simp_all add: emitUIText_def)

lemma splitTextSegment_fields [simp]:
  "specBuffer (splitTextSegment st) = specBuffer st"
  "currentSpec (splitTextSegment st) = currentSpec st"
  "segmentIndex (splitTextSegment st) = (if currentSegmentText st = [] then segmentIndex st else segmentIndex st + 1)"
  "currentSegmentText (splitTextSegment st) = []"
  "enqueued (splitTextSegment st) = enqueued st"
  by (simp_all add: splitTextSegment_def)

lemma later_emit: "later st (emitUIText st t)"
  by (simp add: later_def)

lemma later_split: "later st (splitTextSegment st)"
  by (simp add: later_def)

lemma later_applyPatchLine: "later st (snd (applyPatchLine engine st d))"
  by (auto simp: applyPatchLine_def Let_def later_def split: sum.splits)

lemma later_processItem: "later st (snd (processItem engine st item))"
  by (cases item) (simp_all add: processItem_def later_applyPatchLine later_emit)

lemma later_processItems: "later st (snd (processItems engine st items))"
proof (induction items arbitrary: st)
  case Nil
  then show ?case by (simp add: later_refl)
next
  case (Cons item items)
  obtain r st' where p: "processItem engine st item = (r, st')" by (cases "processItem engine st item")
  have l: "later st st'" using later_processItem[of st engine item] p by simp
  show ?case
  proof (cases r)
    case None
    then show ?thesis using p l Cons.IH[of st'] by (auto intro: later_trans)
  next
    case (Some e)
    then show ?thesis using p l by simp
  qed
qed

lemma later_specBuffer: "later st (st\<lparr>specBuffer := b\<rparr>)"
  by (simp add: later_def)

lemma later_handleChunk: "later st (snd (handleChunk P engine st chunk))"
proof (cases chunk)
  case (TextStart i)
  then show ?thesis by (simp add: handleChunk_def later_refl)
next
  case (TextDelta i delta)
  obtain parsed b where pc: "processChunk P (specBuffer st) delta = (parsed, b)"
    by (cases "processChunk P (specBuffer st) delta")
  show ?thesis using TextDelta pc
    later_trans[OF later_specBuffer[of st b] later_processItems[of "st\<lparr>specBuffer := b\<rparr>" engine parsed]]
    by (simp add: handleChunk_def)
next
  case (TextEnd i)
  obtain remaining b where fl: "flush P (specBuffer st) = (remaining, b)"
    by (cases "flush P (specBuffer st)")
  let ?st1 = "st\<lparr>specBuffer := b\<rparr>"
  have l1: "later st ?st1" by (rule later_specBuffer)
  show ?thesis
  proof (cases remaining)
    case None
    then show ?thesis using TextEnd fl later_trans[OF l1 later_split[of ?st1]]
      by (simp add: handleChunk_def)
  next
    case (Some item)
    show ?thesis
    proof (cases item)
      case (Patch d)
      obtain r st2 where ap: "applyPatchLine engine ?st1 d = (r, st2)"
        by (cases "applyPatchLine engine ?st1 d")
      have l2: "later ?st1 st2" using later_applyPatchLine[of ?st1 engine d] ap by simp
      show ?thesis using TextEnd fl Some Patch ap
          later_trans[OF l1 l2] later_trans[OF later_trans[OF l1 l2] later_split[of st2]]
        by (cases r) (simp_all add: handleChunk_def)
    next
      case (Text c)
      show ?thesis using TextEnd fl Some Text
          later_trans[OF later_trans[OF l1 later_emit[of ?st1 c]] later_split[of "emitUIText ?st1 c"]]
        by (simp add: handleChunk_def)
    qed
  qed
next
  case (OtherChunk v)
  then show ?thesis by (simp add: handleChunk_def later_def)
qed

lemma later_processLine: "later st (processLine pc P engine st line)"
  by (auto simp: processLine_def Let_def later_refl later_handleChunk split: option.splits)

lemma later_foldl_processLine: "later st (foldl (processLine pc P engine) st lines)"
proof (induction lines arbitrary: st)
  case Nil
  then show ?case by (simp add: later_refl)
next
  case (Cons l ls)
  show ?case using later_trans[OF later_processLine[of st pc P engine l] Cons[of "processLine pc P engine st l"]]
    by simp
qed

lemma later_read_loop: "later st (fst (snd (read_loop pc P engine st buffer reads)))"
proof (induction reads arbitrary: st buffer)
  case Nil
  then show ?case by (simp add: later_refl)
next
  case (Cons r rs)
  show ?case
  proof (cases r)
    case (Inl e)
    then show ?thesis by (simp add: later_refl)
  next
    case (Inr v)
    obtain lines b where sp: "split_pop (buffer @ v) = (lines, b)" by (cases "split_pop (buffer @ v)")
    show ?thesis using Inr sp
      later_trans[OF later_foldl_processLine[of st pc P engine lines] Cons[of "foldl (processLine pc P engine) st lines" b]]
      by simp
  qed
qed


lemma trim_Nil [simp]: "trim [] = []"
  by (simp add: trim_def)

lemma parseSpecLine_Text: "parseSpecLine P line = Some (Text c) \<Longrightarrow> c = line \<and> trim line \<noteq> []"
  by (auto simp: parseSpecLine_def Let_def split: if_splits option.splits json.splits)

lemma flush_Text_nonempty: "flush P b = (Some (Text c), b') \<Longrightarrow> c \<noteq> []"
  by (auto simp: flush_def split: if_splits dest!: parseSpecLine_Text)

lemma dense_emit: "dense st \<Longrightarrow> t \<noteq> [] \<Longrightarrow> dense (emitUIText st t)"
  unfolding dense_def by (auto simp: sorted_append)

lemma dense_split: "dense st \<Longrightarrow> dense (splitTextSegment st)"
  unfolding dense_def by (auto simp: less_Suc_eq)

lemma dense_specBuffer: "dense st \<Longrightarrow> dense (st\<lparr>specBuffer := b\<rparr>)"
  unfolding dense_def by simp

lemma dense_applyPatchLine: "dense st \<Longrightarrow> dense (snd (applyPatchLine engine st d))"
proof -
  assume d: "dense st"
  have s: "dense (splitTextSegment st)" using d by (rule dense_split)
  show ?thesis
  proof (cases "applySpecPatch engine (currentSpec (splitTextSegment st)) d")
    case (Inl e)
    then show ?thesis using s by (simp add: applyPatchLine_def Let_def)
  next
    case (Inr spec')
    have "dense (splitTextSegment st\<lparr>currentSpec := spec', enqueued := enqueued (splitTextSegment st) @ [DataUI spec']\<rparr>)"
      using s unfolding dense_def by simp
    then show ?thesis using Inr by (simp add: applyPatchLine_def Let_def)
  qed
qed

lemma dense_processItem: "dense st \<Longrightarrow> dense (snd (processItem engine st item))"
  by (cases item) (simp_all add: processItem_def dense_applyPatchLine dense_emit)

lemma dense_processItems: "dense st \<Longrightarrow> dense (snd (processItems engine st items))"
proof (induction items arbitrary: st)
  case Nil
  then show ?case by simp
next
  case (Cons item items)
  obtain r st' where p: "processItem engine st item = (r, st')" by (cases "processItem engine st item")
  have l: "dense st'" using dense_processItem[OF Cons.prems, of engine item] p by simp
  show ?case using p l Cons.IH[of st'] by (cases r) auto
qed

lemma dense_handleChunk: "dense st \<Longrightarrow> dense (snd (handleChunk P engine st chunk))"
proof -
  assume d: "dense st"
  show ?thesis
  proof (cases chunk)
    case (TextStart i)
    then show ?thesis using d by (simp add: handleChunk_def)
  next
    case (TextDelta i delta)
    obtain parsed b where pc: "processChunk P (specBuffer st) delta = (parsed, b)"
      by (cases "processChunk P (specBuffer st) delta")
    show ?thesis using TextDelta pc dense_processItems[OF dense_specBuffer[OF d, of b], of engine parsed]
      by (simp add: handleChunk_def)
  next
    case (TextEnd i)
    obtain remaining b where fl: "flush P (specBuffer st) = (remaining, b)"
      by (cases "flush P (specBuffer st)")
    let ?st1 = "st\<lparr>specBuffer := b\<rparr>"
    have l1: "dense ?st1" using d by (rule dense_specBuffer)
    show ?thesis
    proof (cases remaining)
      case None
      then show ?thesis using TextEnd fl dense_split[OF l1]
        by (simp add: handleChunk_def)
    next
      case (Some item)
      show ?thesis
      proof (cases item)
        case (Patch d)
        obtain r st2 where ap: "applyPatchLine engine ?st1 d = (r, st2)"
          by (cases "applyPatchLine engine ?st1 d")
        have l2: "dense st2" using dense_applyPatchLine[OF l1, of engine d] ap by simp
        show ?thesis using TextEnd fl Some Patch ap l2 dense_split[OF l2]
          by (cases r) (simp_all add: handleChunk_def)
      next
        case (Text c)
        have "c \<noteq> []" using fl Some Text flush_Text_nonempty by blast
        then show ?thesis using TextEnd fl Some Text dense_split[OF dense_emit[OF l1, of c]]
          by (simp add: handleChunk_def)
      qed
    qed
  next
    case (OtherChunk v)
    then show ?thesis using d by (simp add: handleChunk_def dense_def)
  qed
qed

lemma dense_processLine: "dense st \<Longrightarrow> dense (processLine pc P engine st line)"
  by (auto simp: processLine_def Let_def dense_handleChunk split: option.splits)

lemma dense_foldl_processLine: "dense st \<Longrightarrow> dense (foldl (processLine pc P engine) st lines)"
  by (induction lines arbitrary: st) (simp_all add: dense_processLine)

lemma dense_read_loop: "dense st \<Longrightarrow> dense (fst (snd (read_loop pc P engine st buffer reads)))"
proof (induction reads arbitrary: st buffer)
  case Nil
  then show ?case by simp
next
  case (Cons r rs)
  show ?case
  proof (cases r)
    case (Inl e)
    then show ?thesis using Cons.prems by simp
  next
    case (Inr v)
    obtain lines b where sp: "split_pop (buffer @ v) = (lines, b)" by (cases "split_pop (buffer @ v)")
    show ?thesis using Inr sp
      Cons.IH[OF dense_foldl_processLine[OF Cons.prems, of pc P engine lines], of b]
      by simp
  qed
qed

lemma dense_initial: "dense initial_state"
  by (simp add: dense_def initial_state_def)

lemma fst_processResponseStream:
  "fst (processResponseStream pc P engine reads) = enqueued (final_state pc P engine reads)"
  by (simp add: processResponseStream_def final_state_def Let_def split: prod.splits option.splits)

lemma dense_final: "dense (final_state pc P engine reads)"
proof -
  obtain r st b where rl: "read_loop pc P engine initial_state [] reads = (r, st, b)"
    by (cases "read_loop pc P engine initial_state [] reads") auto
  have "dense st" using dense_read_loop[OF dense_initial, of pc P engine "[]" reads] rl by simp
  then show ?thesis using rl by (cases r) (simp_all add: final_state_def dense_processLine)
qed

lemma dense_lessThan:
  "dense st \<Longrightarrow> \<exists>m. set (text_indices (enqueued st)) = {..<m}"
proof -
  assume d: "dense st"
  let ?n = "segmentIndex st"
  have eq: "set (text_indices (enqueued st)) = {k. k < ?n \<or> (k = ?n \<and> currentSegmentText st \<noteq> [])}"
    using d unfolding dense_def by (rule conjunct2)
  show ?thesis
  proof (cases "currentSegmentText st = []")
    case True
    have "{k. k < ?n \<or> (k = ?n \<and> currentSegmentText st \<noteq> [])} = {..<?n}"
      unfolding lessThan_def using True by simp
    then show ?thesis using eq by metis
  next
    case False
    have "{k. k < ?n \<or> (k = ?n \<and> currentSegmentText st \<noteq> [])} = {..<Suc ?n}"
      unfolding lessThan_def using False by (simp add: less_Suc_eq)
    then show ?thesis using eq by metis
  qed
qed

lemma sorted_final: "sorted (text_indices (enqueued (final_state pc P engine reads)))"
  using dense_final[of pc P engine reads] unfolding dense_def by (rule conjunct1)

lemma applyPatchLine_fields:
  "segmentIndex (snd (applyPatchLine engine st d)) = segmentIndex (splitTextSegment st)"
  "currentSegmentText (snd (applyPatchLine engine st d)) = []"
  "specBuffer (snd (applyPatchLine engine st d)) = specBuffer st"
  by (simp_all add: applyPatchLine_def Let_def split: sum.splits)

lemma dense_bound:
  "dense st \<Longrightarrow>
     set (text_indices (enqueued st)) =
       {..<segmentIndex st + (if currentSegmentText st = [] then 0 else 1)}"
proof -
  assume d: "dense st"
  let ?n = "segmentIndex st"
  have eq: "set (text_indices (enqueued st)) = {k. k < ?n \<or> (k = ?n \<and> currentSegmentText st \<noteq> [])}"
    using d unfolding dense_def by (rule conjunct2)
  show ?thesis
  proof (cases "currentSegmentText st = []")
    case True
    have "{k. k < ?n \<or> (k = ?n \<and> currentSegmentText st \<noteq> [])} = {..<?n}"
      unfolding lessThan_def using True by simp
    then show ?thesis using eq True by simp
  next
    case False
    have "{k. k < ?n \<or> (k = ?n \<and> currentSegmentText st \<noteq> [])} = {..<Suc ?n}"
      unfolding lessThan_def using False by (simp add: less_Suc_eq)
    then show ?thesis using eq False by simp
  qed
qed

lemma text_indices_applyPatchLine:
  "text_indices (enqueued (snd (applyPatchLine engine st d))) = text_indices (enqueued st)"
  by (simp add: applyPatchLine_def Let_def split: sum.splits)

lemma text_then_patches_then_text:
  "text_indices (enqueued
      (snd (processItem engine
         (snd (processItem engine
            (snd (processItem engine
               (snd (processItem engine st (Text a)))
               (Patch d)))
            (Patch d')))
         (Text b))))
     = text_indices (enqueued st) @ [segmentIndex st, segmentIndex st + 1]"
  by (simp add: processItem_def applyPatchLine_fields text_indices_applyPatchLine)

text \<open>
  Claim C10. Over any whole run, the segment indices carried by the text chunks enqueued
  are the consecutive numbers from 0 on, in order, with no gap: they are exactly the
  indices below the final counter, and the final counter itself when the segment open at
  the end has text. So every segment that accumulated text has a chunk with its index:
  text is accumulated only by \<open>emitUIText\<close>, which enqueues a chunk with the index of the
  open segment and the whole text at once, and the counter advances only in
  \<open>splitTextSegment\<close>, by one, when the segment being closed has text. Two patch lines in
  a row leave the counter where the first one put it: a text line, two patch lines and a
  text line, handled one after the other, the patches applying or not, give the index of
  the open segment and then the next one.
\<close>

theorem segment_indices_dense:
  "(\<exists>m. set (text_indices (fst (processResponseStream parse_chunk JSON_parse engine reads))) = {..<m})
   \<and> sorted (text_indices (fst (processResponseStream parse_chunk JSON_parse engine reads)))
   \<and> segmentIndex (splitTextSegment st) =
        (if currentSegmentText st = [] then segmentIndex st else segmentIndex st + 1)
   \<and> segmentIndex (snd (applyPatchLine engine (snd (applyPatchLine engine st d)) d')) =
        segmentIndex (snd (applyPatchLine engine st d))
   \<and> fst (processResponseStream parse_chunk JSON_parse engine reads) =
        enqueued (final_state parse_chunk JSON_parse engine reads)
   \<and> set (text_indices (enqueued (final_state parse_chunk JSON_parse engine reads))) =
        {..<segmentIndex (final_state parse_chunk JSON_parse engine reads)
             + (if currentSegmentText (final_state parse_chunk JSON_parse engine reads) = []
                then 0 else 1)}
   \<and> emitUIText st t =
        st\<lparr>currentSegmentText := currentSegmentText st @ t,
           enqueued := enqueued st @ [DataUIText (segmentIndex st) (currentSegmentText st @ t)]\<rparr>
   \<and> text_indices (enqueued
        (snd (processItem engine
           (snd (processItem engine
              (snd (processItem engine
                 (snd (processItem engine st (Text a)))
                 (Patch d)))
              (Patch d')))
           (Text b))))
       = text_indices (enqueued st) @ [segmentIndex st, segmentIndex st + 1]"
proof -
  have a: "\<exists>m. set (text_indices (fst (processResponseStream parse_chunk JSON_parse engine reads))) = {..<m}"
    using dense_lessThan[OF dense_final] by (simp add: fst_processResponseStream)
  have b: "sorted (text_indices (fst (processResponseStream parse_chunk JSON_parse engine reads)))"
    by (simp add: fst_processResponseStream sorted_final)
  have c: "segmentIndex (snd (applyPatchLine engine (snd (applyPatchLine engine st d)) d')) =
        segmentIndex (snd (applyPatchLine engine st d))"
    by (simp add: applyPatchLine_fields)
  have e: "fst (processResponseStream parse_chunk JSON_parse engine reads) =
        enqueued (final_state parse_chunk JSON_parse engine reads)"
    by (rule fst_processResponseStream)
  have f: "set (text_indices (enqueued (final_state parse_chunk JSON_parse engine reads))) =
        {..<segmentIndex (final_state parse_chunk JSON_parse engine reads)
             + (if currentSegmentText (final_state parse_chunk JSON_parse engine reads) = []
                then 0 else 1)}"
    using dense_final by (rule dense_bound)
  have g: "emitUIText st t =
        st\<lparr>currentSegmentText := currentSegmentText st @ t,
           enqueued := enqueued st @ [DataUIText (segmentIndex st) (currentSegmentText st @ t)]\<rparr>"
    by (simp add: emitUIText_def)
  have s: "segmentIndex (splitTextSegment st) =
        (if currentSegmentText st = [] then segmentIndex st else segmentIndex st + 1)"
    by simp
  note h = text_then_patches_then_text[of engine st a d d' b]
  show ?thesis
    apply (intro conjI)
    using a apply blast
    using b apply blast
    using s apply blast
    using c apply blast
    using e apply blast
    using f apply blast
    using g apply blast
    using h apply blast
    done
qed

section \<open>Segment boundaries\<close>

lemma later_new_above:
  assumes "later a b" "segmentIndex st < segmentIndex a"
  shows "\<exists>new. enqueued b = enqueued a @ new \<and> (\<forall>k\<in>set (text_indices new). segmentIndex st < k)"
  using assms unfolding later_def by fastforce

lemma processItems_cut_short:
  "fst (processItems engine st items) = Some e \<Longrightarrow>
     currentSegmentText (snd (processItems engine st items)) = []"
proof (induction items arbitrary: st)
  case Nil
  then show ?case by simp
next
  case (Cons item items)
  obtain r st' where p: "processItem engine st item = (r, st')" by (cases "processItem engine st item")
  show ?case
  proof (cases r)
    case None
    then show ?thesis using Cons p by simp
  next
    case (Some e')
    have "\<exists>d. item = Patch d" using p Some by (cases item) (simp_all add: processItem_def)
    then obtain d where d: "item = Patch d" by blast
    have "currentSegmentText st' = []"
      using p d applyPatchLine_fields(2)[of engine st d] by (simp add: processItem_def)
    then show ?thesis using p Some by simp
  qed
qed

text \<open>
  Claim C5. A patch line closes the open segment, whether the patch applies or not: when
  the segment has text, the counter moves on by one and the accumulated text is reset;
  the chunks enqueued before stay as they are, the patch line itself enqueues no text
  chunk, and whatever is enqueued later (by the rest of the same loop and by any further
  lines) carries a higher index than the closed segment, so no later chunk extends or
  changes it; the next Text line opens the segment with the incremented index, its text
  being that line alone. A patch line that the loop does not reach, because an earlier
  patch of the same text-delta threw, finds the segment closed already: a loop that is cut
  short leaves no open text.
\<close>

theorem patch_line_closes_segment:
  assumes "currentSegmentText st \<noteq> []"
  shows "segmentIndex (snd (applyPatchLine engine st d)) = segmentIndex st + 1
     \<and> currentSegmentText (snd (applyPatchLine engine st d)) = []
     \<and> splitTextSegment (snd (applyPatchLine engine st d)) = snd (applyPatchLine engine st d)
     \<and> (\<exists>doc. enqueued (snd (applyPatchLine engine st d)) = enqueued st @ doc \<and> text_indices doc = [])
     \<and> (\<forall>rest lines. \<exists>new.
           enqueued (foldl (processLine parse_chunk JSON_parse engine)
                      (snd (processItems engine (snd (applyPatchLine engine st d)) rest)) lines)
             = enqueued (snd (applyPatchLine engine st d)) @ new
           \<and> (\<forall>k\<in>set (text_indices new). segmentIndex st < k))
     \<and> (\<forall>content.
           fst (processItem engine (snd (applyPatchLine engine st d)) (Text content)) = None
           \<and> enqueued (snd (processItem engine (snd (applyPatchLine engine st d)) (Text content)))
               = enqueued (snd (applyPatchLine engine st d))
                   @ [DataUIText (segmentIndex st + 1) (content @ [newline])])
     \<and> (\<forall>st0 items e. fst (processItems engine st0 items) = Some e \<longrightarrow>
           currentSegmentText (snd (processItems engine st0 items)) = [])"
proof -
  let ?st1 = "snd (applyPatchLine engine st d)"
  have i: "segmentIndex ?st1 = segmentIndex st + 1"
    using assms by (simp add: applyPatchLine_fields)
  have t: "currentSegmentText ?st1 = []" by (simp add: applyPatchLine_fields)
  have s: "splitTextSegment ?st1 = ?st1" using t by (simp add: splitTextSegment_def)
  have q: "\<exists>doc. enqueued ?st1 = enqueued st @ doc \<and> text_indices doc = []"
    by (auto simp: applyPatchLine_def Let_def split: sum.splits)
  have l: "\<forall>rest lines. \<exists>new.
           enqueued (foldl (processLine parse_chunk JSON_parse engine)
                      (snd (processItems engine ?st1 rest)) lines)
             = enqueued ?st1 @ new
           \<and> (\<forall>k\<in>set (text_indices new). segmentIndex st < k)"
  proof (intro allI)
    fix rest lines
    have "later ?st1 (foldl (processLine parse_chunk JSON_parse engine)
                      (snd (processItems engine ?st1 rest)) lines)"
      using later_trans[OF later_processItems later_foldl_processLine] .
    then show "\<exists>new.
           enqueued (foldl (processLine parse_chunk JSON_parse engine)
                      (snd (processItems engine ?st1 rest)) lines)
             = enqueued ?st1 @ new
           \<and> (\<forall>k\<in>set (text_indices new). segmentIndex st < k)"
      using i by (intro later_new_above) simp_all
  qed
  have n: "\<forall>content.
           fst (processItem engine ?st1 (Text content)) = None
           \<and> enqueued (snd (processItem engine ?st1 (Text content)))
               = enqueued ?st1 @ [DataUIText (segmentIndex st + 1) (content @ [newline])]"
    using i t by (simp add: processItem_def)
  have k: "\<forall>st0 items e. fst (processItems engine st0 items) = Some e \<longrightarrow>
           currentSegmentText (snd (processItems engine st0 items)) = []"
    using processItems_cut_short by blast
  show ?thesis using i t s q l n k by blast
qed

text \<open>
  The example of claim C5: the text line Before, a patch line, the text line After, each
  in its own text-delta, give two segments \<open>"Before\n"\<close> and \<open>"After\n"\<close>.
\<close>

theorem patch_line_closes_segment_witness:
  "processResponseStream sample_parse_chunk sample_JSON_parse applySpecStreamLine
     [sse (text_delta_json ''text1'' (''Before'' @ [newline])),
      sse (text_delta_json ''text1'' (replace_root_line @ [newline])),
      sse (text_delta_json ''text1'' (''After'' @ [newline])),
      sse (text_end_json ''text1'')]
    = ([DataUIText 0 (''Before'' @ [newline]),
        DataUI \<lparr>root = ''card1'', elements = [], state = None\<rparr>,
        DataUIText 1 (''After'' @ [newline])], Closed)
   \<and> currentSegmentText
        \<lparr>specBuffer = [], currentSpec = empty_Spec, segmentIndex = 0,
         currentSegmentText = ''Before'' @ [newline],
         enqueued = [DataUIText 0 (''Before'' @ [newline])]\<rparr> \<noteq> []
   \<and> segmentIndex (snd (applyPatchLine applySpecStreamLine
        \<lparr>specBuffer = [], currentSpec = empty_Spec, segmentIndex = 0,
         currentSegmentText = ''Before'' @ [newline],
         enqueued = [DataUIText 0 (''Before'' @ [newline])]\<rparr>
        (JObj [(''op'', JStr ''replace''), (''path'', JStr ''/root''), (''value'', JStr ''card1'')]))) = 1
   \<and> enqueued (snd (processItem applySpecStreamLine (snd (applyPatchLine applySpecStreamLine
        \<lparr>specBuffer = [], currentSpec = empty_Spec, segmentIndex = 0,
         currentSegmentText = ''Before'' @ [newline],
         enqueued = [DataUIText 0 (''Before'' @ [newline])]\<rparr>
        (JObj [(''op'', JStr ''replace''), (''path'', JStr ''/root''), (''value'', JStr ''card1'')])))
        (Text ''After'')))
      = [DataUIText 0 (''Before'' @ [newline]),
         DataUI \<lparr>root = ''card1'', elements = [], state = None\<rparr>,
         DataUIText 1 (''After'' @ [newline])]"
proof -
  let ?st = "\<lparr>specBuffer = [], currentSpec = empty_Spec, segmentIndex = 0,
         currentSegmentText = ''Before'' @ [newline],
         enqueued = [DataUIText 0 (''Before'' @ [newline])]\<rparr>"
  let ?d = "JObj [(''op'', JStr ''replace''), (''path'', JStr ''/root''), (''value'', JStr ''card1'')]"
  have run: "processResponseStream sample_parse_chunk sample_JSON_parse applySpecStreamLine
     [sse (text_delta_json ''text1'' (''Before'' @ [newline])),
      sse (text_delta_json ''text1'' (replace_root_line @ [newline])),
      sse (text_delta_json ''text1'' (''After'' @ [newline])),
      sse (text_end_json ''text1'')]
    = ([DataUIText 0 (''Before'' @ [newline]),
        DataUI \<lparr>root = ''card1'', elements = [], state = None\<rparr>,
        DataUIText 1 (''After'' @ [newline])], Closed)"
    by code_simp
  have h: "currentSegmentText ?st \<noteq> []" by simp
  have q: "enqueued (snd (applyPatchLine applySpecStreamLine ?st ?d))
      = [DataUIText 0 (''Before'' @ [newline]), DataUI \<lparr>root = ''card1'', elements = [], state = None\<rparr>]"
    by code_simp
  note t = patch_line_closes_segment[OF h, of applySpecStreamLine ?d sample_parse_chunk sample_JSON_parse]
  have i: "segmentIndex (snd (applyPatchLine applySpecStreamLine ?st ?d)) = 1"
    using t by simp
  have n: "enqueued (snd (processItem applySpecStreamLine (snd (applyPatchLine applySpecStreamLine ?st ?d)) (Text ''After'')))
      = enqueued (snd (applyPatchLine applySpecStreamLine ?st ?d)) @ [DataUIText (segmentIndex ?st + 1) (''After'' @ [newline])]"
    using t by blast
  show ?thesis using run h i n q by simp
qed

section \<open>Text stream identifiers\<close>

lemma handleChunk_with_id: "handleChunk P engine st (with_id f chunk) = handleChunk P engine st chunk"
  by (cases chunk) (simp_all add: handleChunk_def)

lemma processLine_with_id:
  "processLine (\<lambda>line. map_option (with_id f) (pc line)) P engine st line = processLine pc P engine st line"
  by (simp add: processLine_def Let_def handleChunk_with_id split: option.splits)

lemma processLine_with_id_fun:
  "processLine (\<lambda>line. map_option (with_id f) (pc line)) P engine = processLine pc P engine"
  by (intro ext) (rule processLine_with_id)

lemma read_loop_with_id:
  "read_loop (\<lambda>line. map_option (with_id f) (pc line)) P engine st buffer reads =
   read_loop pc P engine st buffer reads"
proof (induction reads arbitrary: st buffer)
  case Nil
  then show ?case by simp
next
  case (Cons r rs)
  show ?case using Cons by (cases r) (simp_all add: processLine_with_id_fun split: prod.splits)
qed

lemma specBuffer_processItem: "specBuffer (snd (processItem engine st item)) = specBuffer st"
  by (cases item) (simp_all add: processItem_def applyPatchLine_fields)

lemma specBuffer_processItems: "specBuffer (snd (processItems engine st items)) = specBuffer st"
proof (induction items arbitrary: st)
  case Nil
  then show ?case by simp
next
  case (Cons item items)
  obtain r st' where p: "processItem engine st item = (r, st')" by (cases "processItem engine st item")
  have b: "specBuffer st' = specBuffer st" using specBuffer_processItem[of engine st item] p by simp
  show ?case using p b Cons.IH[of st'] by (cases r) simp_all
qed

lemma handleChunk_TextDelta:
  "handleChunk P engine st (TextDelta i delta) =
     processItems engine (st\<lparr>specBuffer := snd (split_pop (specBuffer st @ delta))\<rparr>)
       (List.map_filter (parseSpecLine P) (fst (split_pop (specBuffer st @ delta))))"
  by (simp add: handleChunk_def processChunk_def split: prod.splits)

lemma specBuffer_TextDelta:
  "specBuffer (snd (handleChunk P engine st (TextDelta i delta))) = snd (split_pop (specBuffer st @ delta))"
  unfolding handleChunk_TextDelta by (simp add: specBuffer_processItems)

lemma split_pop_tail: "snd (split_pop (snd (split_pop s) @ t)) = snd (split_pop (s @ t))"
  using split_nl_nonempty[of "last (split_nl s) @ t"]
  by (simp add: split_pop_def split_nl_append[of s t])

lemma specBuffer_TextDeltas:
  "specBuffer (foldl (\<lambda>s x. snd (handleChunk P engine s (TextDelta (fst x) (snd x)))) st (x # deltas)) =
     snd (split_pop (specBuffer st @ concat (map snd (x # deltas))))"
proof (induction deltas arbitrary: st x)
  case Nil
  show ?case by (simp add: specBuffer_TextDelta)
next
  case (Cons y deltas)
  show ?case
    using Cons.IH[of "snd (handleChunk P engine st (TextDelta (fst x) (snd x)))" y]
      split_pop_tail[of "specBuffer st @ snd x" "snd y @ concat (map snd deltas)"]
    by (simp add: specBuffer_TextDelta)
qed

text \<open>
  Claim C2, as amended. The transport keeps one buffer and one segment bookkeeping for the
  whole response, shared by all text stream identifiers. The identifier of a text chunk is
  never read: a chunk is handled the same under any renaming of its identifier, and so is
  the whole response, also under a renaming that gives all streams the same name. Every
  text-delta fragment, whatever its identifier, is appended to what the one buffer holds:
  the lines completed by the buffered text followed by the fragment are classified and
  processed, and the unterminated tail is the new buffer. So after text-delta chunks of
  any identifiers the buffer holds the tail of what it held followed by their fragments
  in arrival order.
\<close>

theorem identifiers_not_read:
  "handleChunk JSON_parse engine st (with_id f chunk) = handleChunk JSON_parse engine st chunk
   \<and> processResponseStream (\<lambda>line. map_option (with_id f) (parse_chunk line)) JSON_parse engine reads
       = processResponseStream parse_chunk JSON_parse engine reads
   \<and> handleChunk JSON_parse engine st (TextDelta i delta) =
       processItems engine (st\<lparr>specBuffer := snd (split_pop (specBuffer st @ delta))\<rparr>)
         (List.map_filter (parseSpecLine JSON_parse) (fst (split_pop (specBuffer st @ delta))))
   \<and> specBuffer (snd (handleChunk JSON_parse engine st (TextDelta i delta))) =
       snd (split_pop (specBuffer st @ delta))
   \<and> specBuffer
        (foldl (\<lambda>s x. snd (handleChunk JSON_parse engine s (TextDelta (fst x) (snd x)))) st (x # deltas)) =
       snd (split_pop (specBuffer st @ concat (map snd (x # deltas))))"
proof (intro conjI)
  show "handleChunk JSON_parse engine st (with_id f chunk) = handleChunk JSON_parse engine st chunk"
    by (rule handleChunk_with_id)
  show "processResponseStream (\<lambda>line. map_option (with_id f) (parse_chunk line)) JSON_parse engine reads
       = processResponseStream parse_chunk JSON_parse engine reads"
    unfolding processResponseStream_def read_loop_with_id processLine_with_id_fun by (rule refl)
  show "handleChunk JSON_parse engine st (TextDelta i delta) =
       processItems engine (st\<lparr>specBuffer := snd (split_pop (specBuffer st @ delta))\<rparr>)
         (List.map_filter (parseSpecLine JSON_parse) (fst (split_pop (specBuffer st @ delta))))"
    by (rule handleChunk_TextDelta)
  show "specBuffer (snd (handleChunk JSON_parse engine st (TextDelta i delta))) =
       snd (split_pop (specBuffer st @ delta))"
    by (rule specBuffer_TextDelta)
  show "specBuffer
        (foldl (\<lambda>s x. snd (handleChunk JSON_parse engine s (TextDelta (fst x) (snd x)))) st (x # deltas)) =
       snd (split_pop (specBuffer st @ concat (map snd (x # deltas))))"
    by (rule specBuffer_TextDeltas)
qed

text \<open>
  As claim C2 states it, fragments of distinct identifiers would never share a line or a
  segment. Here the fragment of stream a and that of stream b end up in one chunk.
\<close>

theorem identifiers_mixed:
  "processResponseStream sample_parse_chunk sample_JSON_parse applySpecStreamLine
     [sse (text_delta_json ''a'' ''foo''), sse (text_delta_json ''b'' ''bar''), sse (text_end_json ''a'')]
   = ([DataUIText 0 ''foobar''], Closed)"
  by code_simp

section \<open>The end of the response\<close>

text \<open>
  Claim C1, evaluated. A response that ends after a text-delta, with no text-end: the
  fragment is still in the buffer, and the stream closes with nothing enqueued; the same
  response with its text-end enqueues the text.
\<close>

theorem unflushed_text_dropped_at_end:
  "processResponseStream sample_parse_chunk sample_JSON_parse applySpecStreamLine
     [sse (text_delta_json ''text1'' ''Hello'')] = ([], Closed)
   \<and> processResponseStream sample_parse_chunk sample_JSON_parse applySpecStreamLine
     [sse (text_delta_json ''text1'' ''Hello''), sse (text_end_json ''text1'')]
       = ([DataUIText 0 ''Hello''], Closed)"
  by code_simp

section \<open>Text lines\<close>

lemma processItems_append:
  "processItems engine st (pre @ post) =
     (case processItems engine st pre of
        (Some e, st1) \<Rightarrow> (Some e, st1)
      | (None, st1) \<Rightarrow> processItems engine st1 post)"
proof (induction pre arbitrary: st)
  case Nil
  then show ?case by simp
next
  case (Cons item pre)
  obtain r st' where p: "processItem engine st item = (r, st')" by (cases "processItem engine st item")
  show ?case using p Cons[of st'] by (cases r) simp_all
qed

lemma flush_Text: "flush P b = (Some (Text c), b') \<Longrightarrow> c = b \<and> b' = [] \<and> c \<noteq> []"
  by (auto simp: flush_def split: if_splits dest!: parseSpecLine_Text)

text \<open>
  What the loop over the lines of a text-delta does with a Text line it reaches, and
  what text-end does with a Text remainder. A Text line reached is appended with one line
  terminator to the open segment, and a text chunk is enqueued with the index of that
  segment and its whole accumulated text. A Text remainder flushed at text-end is the
  buffered tail itself; it is appended with no terminator and enqueued as the last chunk
  of that segment: the segment is closed, and every later text chunk carries a higher
  index.
\<close>

lemma text_line_reached_appended:
  "handleChunk JSON_parse engine st (TextDelta i delta) =
      processItems engine (st\<lparr>specBuffer := snd (processChunk JSON_parse (specBuffer st) delta)\<rparr>)
        (fst (processChunk JSON_parse (specBuffer st) delta))
   \<and> (\<forall>pre content post st1. processItems engine st pre = (None, st1) \<longrightarrow>
        processItems engine st (pre @ Text content # post) =
          processItems engine
            (st1\<lparr>currentSegmentText := currentSegmentText st1 @ content @ [newline],
                 enqueued := enqueued st1 @
                   [DataUIText (segmentIndex st1) (currentSegmentText st1 @ content @ [newline])]\<rparr>)
            post)
   \<and> (\<forall>content buffer'. flush JSON_parse (specBuffer st) = (Some (Text content), buffer') \<longrightarrow>
        content = specBuffer st
        \<and> fst (handleChunk JSON_parse engine st (TextEnd i)) = None
        \<and> enqueued (snd (handleChunk JSON_parse engine st (TextEnd i))) =
            enqueued st @ [DataUIText (segmentIndex st) (currentSegmentText st @ content)]
        \<and> segmentIndex (snd (handleChunk JSON_parse engine st (TextEnd i))) = segmentIndex st + 1
        \<and> currentSegmentText (snd (handleChunk JSON_parse engine st (TextEnd i))) = []
        \<and> (\<forall>lines. \<exists>new.
              enqueued (foldl (processLine parse_chunk JSON_parse engine)
                         (snd (handleChunk JSON_parse engine st (TextEnd i))) lines)
                = enqueued (snd (handleChunk JSON_parse engine st (TextEnd i))) @ new
              \<and> (\<forall>k\<in>set (text_indices new). segmentIndex st < k)))"
proof (intro conjI allI impI)
  show "handleChunk JSON_parse engine st (TextDelta i delta) =
      processItems engine (st\<lparr>specBuffer := snd (processChunk JSON_parse (specBuffer st) delta)\<rparr>)
        (fst (processChunk JSON_parse (specBuffer st) delta))"
    by (simp add: handleChunk_def split: prod.splits)
next
  fix pre content post st1
  assume a: "processItems engine st pre = (None, st1)"
  show "processItems engine st (pre @ Text content # post) =
          processItems engine
            (st1\<lparr>currentSegmentText := currentSegmentText st1 @ content @ [newline],
                 enqueued := enqueued st1 @
                   [DataUIText (segmentIndex st1) (currentSegmentText st1 @ content @ [newline])]\<rparr>)
            post"
    using a by (simp add: processItems_append processItem_def emitUIText_def)
next
  fix content buffer'
  assume f: "flush JSON_parse (specBuffer st) = (Some (Text content), buffer')"
  have c: "content = specBuffer st" "buffer' = []" "content \<noteq> []" using flush_Text[OF f] by blast+
  let ?st' = "snd (handleChunk JSON_parse engine st (TextEnd i))"
  have h: "handleChunk JSON_parse engine st (TextEnd i) =
      (None, splitTextSegment (emitUIText (st\<lparr>specBuffer := buffer'\<rparr>) content))"
    using f by (simp add: handleChunk_def)
  show "content = specBuffer st" by (rule c(1))
  show "fst (handleChunk JSON_parse engine st (TextEnd i)) = None" by (simp add: h)
  show "enqueued ?st' = enqueued st @ [DataUIText (segmentIndex st) (currentSegmentText st @ content)]"
    by (simp add: h)
  show i: "segmentIndex ?st' = segmentIndex st + 1" using c(3) by (simp add: h)
  show "currentSegmentText ?st' = []" by (simp add: h)
  fix lines
  have "later ?st' (foldl (processLine parse_chunk JSON_parse engine) ?st' lines)"
    by (rule later_foldl_processLine)
  then show "\<exists>new. enqueued (foldl (processLine parse_chunk JSON_parse engine) ?st' lines)
                = enqueued ?st' @ new
              \<and> (\<forall>k\<in>set (text_indices new). segmentIndex st < k)"
    using i by (intro later_new_above) simp_all
qed

text \<open>
  Claim C6, evaluated. The claim has every Text line produced in text-delta processing
  appended and emitted. In this response a test patch that fails and the text line Hello
  arrive in one text-delta: the buffer produces both lines, the patch throws, the
  \<open>catch\<close> of \<open>processLine\<close> ends the loop over the lines, and the text line is never
  enqueued. The same text cut into two text-delta chunks, the text line in the second,
  enqueues it.
\<close>

theorem text_line_after_failed_patch_dropped:
  "fst (processChunk sample_JSON_parse [] (test_root_line @ [newline] @ ''Hello'' @ [newline])) =
     [Patch (JObj [(''op'', JStr ''test''), (''path'', JStr ''/root''), (''value'', JStr ''card1'')]),
      Text ''Hello'']
   \<and> processResponseStream sample_parse_chunk sample_JSON_parse applySpecStreamLine
       [sse (text_delta_json ''text1'' (test_root_line @ [newline] @ ''Hello'' @ [newline])),
        sse (text_end_json ''text1'')] = ([], Closed)
   \<and> processResponseStream sample_parse_chunk sample_JSON_parse applySpecStreamLine
       [sse (text_delta_json ''text1'' (test_root_line @ [newline])),
        sse (text_delta_json ''text1'' (''Hello'' @ [newline])),
        sse (text_end_json ''text1'')] = ([DataUIText 0 (''Hello'' @ [newline])], Closed)"
  by code_simp

section \<open>The document builder\<close>

lemma unescape_plain: "CHR ''~'' \<notin> set s \<Longrightarrow> unescape s = s"
  by (induction s rule: unescape.induct) auto

lemma element_id_plain:
  "CHR ''~'' \<notin> set (path p) \<Longrightarrow>
     element_id p =
       (if (op p = Add \<or> op p = Replace) \<and> take 10 (path p) = ''/elements/''
           \<and> drop 10 (path p) \<noteq> [] \<and> CHR ''/'' \<notin> set (drop 10 (path p))
        then Some (drop 10 (path p)) else None)"
proof -
  assume "CHR ''~'' \<notin> set (path p)"
  then have "CHR ''~'' \<notin> set (drop 10 (path p))" using set_drop_subset[of 10 "path p"] by blast
  then show ?thesis by (simp add: element_id_def unescape_plain)
qed

lemma element_id_plain_nonempty:
  "CHR ''~'' \<notin> set (path p) \<Longrightarrow> element_id p = Some i \<Longrightarrow> i \<noteq> []"
  by (auto simp: element_id_plain split: if_splits)

lemma buildSpec_loop_key:
  "buildSpec_loop engine d k ps = Inr (d', k') \<Longrightarrow> k \<noteq> Some [] \<Longrightarrow>
   \<forall>p\<in>set ps. CHR ''~'' \<notin> set (path p) \<Longrightarrow>
     fold_patches engine d ps = Inr d' \<and>
     k' = (case k of Some i \<Rightarrow> Some i | None \<Rightarrow> first_element_id ps)"
proof (induction ps arbitrary: d k)
  case Nil
  then show ?case by (auto split: option.splits)
next
  case (Cons p ps)
  have plain: "CHR ''~'' \<notin> set (path p)" and rest: "\<forall>p\<in>set ps. CHR ''~'' \<notin> set (path p)"
    using Cons.prems(3) by simp_all
  obtain d1 where a: "applySpecPatch engine d p = Inr d1"
    using Cons.prems(1) by (cases "applySpecPatch engine d p") (auto simp: Let_def)
  let ?k1 = "(if directElementPath (path p) \<noteq> None \<and> (op p = Add \<or> op p = Replace)
                \<and> (k = None \<or> k = Some [])
             then Some (drop (length ''/elements/'') (the (directElementPath (path p))))
             else k)"
  have l: "buildSpec_loop engine d1 ?k1 ps = Inr (d', k')"
    using Cons.prems(1) a by (simp add: Let_def)
  have k1: "?k1 = (case k of Some i \<Rightarrow> Some i | None \<Rightarrow> element_id p)"
  proof -
    have len: "\<And>s::string. drop (length ''/elements/'') s = drop 10 s" by (simp add: eval_nat_numeral)
    show ?thesis unfolding len element_id_plain[OF plain] using Cons.prems(2)
      by (auto simp: directElementPath_def simp del: length_Cons list.size split: option.splits)
  qed
  have ne: "?k1 \<noteq> Some []"
    unfolding k1 using Cons.prems(2) element_id_plain_nonempty[OF plain] by (auto split: option.splits)
  have ih: "fold_patches engine d1 ps = Inr d' \<and>
     k' = (case ?k1 of Some i \<Rightarrow> Some i | None \<Rightarrow> first_element_id ps)"
    using Cons.IH[OF l ne rest] .
  show ?case using ih a unfolding k1 by (auto split: option.splits)
qed

lemma buildSpec_loop_fail:
  "buildSpec_loop engine d k ps = Inl e \<Longrightarrow> fold_patches engine d ps = Inl e"
proof (induction ps arbitrary: d k)
  case Nil
  then show ?case by simp
next
  case (Cons p ps)
  show ?case
  proof (cases "applySpecPatch engine d p")
    case (Inl e')
    then show ?thesis using Cons.prems by (simp add: Let_def)
  next
    case (Inr d1)
    then show ?thesis using Cons.prems Cons.IH by (simp add: Let_def)
  qed
qed

lemma first_element_id_plain_nonempty:
  "\<forall>p\<in>set ps. CHR ''~'' \<notin> set (path p) \<Longrightarrow> first_element_id ps = Some i \<Longrightarrow> i \<noteq> []"
  by (induction ps) (auto split: option.splits dest: element_id_plain_nonempty)

text \<open>
  \<open>buildSpec\<close> folds the patches from the empty document, threading the result forward,
  and fails where an application fails. For patches whose paths hold no tilde, where
  a path segment is its own decoding, the root it infers is the first identifier directly
  added or replaced.
\<close>

lemma buildSpec_fold_plain_paths:
  assumes "\<forall>p\<in>set ps. CHR ''~'' \<notin> set (path p)"
  shows "buildSpec engine ps =
     (case fold_patches engine empty_Spec ps of
        Inl e \<Rightarrow> Inl e
      | Inr d \<Rightarrow>
          Inr (if root d = [] then (case first_element_id ps of None \<Rightarrow> d | Some i \<Rightarrow> d\<lparr>root := i\<rparr>)
               else d))"
proof (cases "buildSpec_loop engine empty_Spec None ps")
  case (Inl e)
  then show ?thesis using buildSpec_loop_fail[OF Inl] by (simp add: buildSpec_def)
next
  case (Inr r)
  obtain d k where r: "r = (d, k)" by (cases r)
  have f: "fold_patches engine empty_Spec ps = Inr d" and k: "k = first_element_id ps"
    using buildSpec_loop_key[of engine empty_Spec None ps d k] Inr r assms by auto
  show ?thesis using Inr r f k first_element_id_plain_nonempty[OF assms]
    by (auto simp: buildSpec_def split: option.splits)
qed

text \<open>
  Claim C7, evaluated. The claim has the root set to the first identifier directly added
  or replaced at \<open>/elements/<id>\<close>. \<open>buildSpec\<close> takes the path segment as it is written:
  for the single patch that adds \<open>/elements/a~1b\<close>, which addresses the element \<open>a/b\<close>,
  the root becomes \<open>a~1b\<close>, an identifier of no element of the document. The example
  of the claim, \<open>/elements/card1\<close>, gives the root \<open>card1\<close>, and the empty sequence gives
  the empty document.
\<close>

theorem buildSpec_root_not_decoded:
  "buildSpec applySpecStreamPatch
      [\<lparr>op = Add, path = ''/elements/a~1b'',
        pvalue = Some (JObj [(''type'', JStr ''Card''), (''props'', JObj [])]), pfrom = None\<rparr>]
     = Inr \<lparr>root = ''a~1b'',
            elements = [(''a/b'', JObj [(''type'', JStr ''Card''), (''props'', JObj [])])],
            state = None\<rparr>
   \<and> first_element_id
      [\<lparr>op = Add, path = ''/elements/a~1b'',
        pvalue = Some (JObj [(''type'', JStr ''Card''), (''props'', JObj [])]), pfrom = None\<rparr>]
     = Some ''a/b''
   \<and> map_of [(''a/b'', JObj [(''type'', JStr ''Card''), (''props'', JObj [])])] ''a~1b'' = None
   \<and> buildSpec applySpecStreamPatch
      [\<lparr>op = Add, path = ''/elements/card1'',
        pvalue = Some (JObj [(''type'', JStr ''Card''), (''props'', JObj [])]), pfrom = None\<rparr>]
     = Inr \<lparr>root = ''card1'',
            elements = [(''card1'', JObj [(''type'', JStr ''Card''), (''props'', JObj [])])],
            state = None\<rparr>
   \<and> buildSpec applySpecStreamPatch [] = Inr empty_Spec"
  by code_simp

section \<open>Patches leave their input alone\<close>

lemma fresh_from_snoc:
  "fresh_from n h \<Longrightarrow> refs_from n (children obj) \<Longrightarrow> fresh_from n (h @ [obj])"
  unfolding fresh_from_def refs_from_def
  by (auto simp: nth_append less_Suc_eq)

lemma alloc_fresh:
  "n \<le> length h \<Longrightarrow> fresh_from n h \<Longrightarrow>
     (\<exists>new. snd (alloc t h) = h @ new) \<and> fresh_from n (snd (alloc t h))
     \<and> refs_from n [fst (alloc t h)]"
  "n \<le> length h \<Longrightarrow> fresh_from n h \<Longrightarrow>
     (\<exists>new. snd (alloc_list ts h) = h @ new) \<and> fresh_from n (snd (alloc_list ts h))
     \<and> refs_from n (fst (alloc_list ts h))"
  "n \<le> length h \<Longrightarrow> fresh_from n h \<Longrightarrow>
     (\<exists>new. snd (alloc_members ms h) = h @ new) \<and> fresh_from n (snd (alloc_members ms h))
     \<and> refs_from n (map snd (fst (alloc_members ms h)))"
proof (induction t h and ts h and ms h arbitrary: n and n and n rule: alloc_alloc_list_alloc_members.induct)
  case (1 h)
  then show ?case by (simp add: refs_from_def)
next
  case (2 b h)
  then show ?case by (simp add: refs_from_def)
next
  case (3 r h)
  then show ?case by (simp add: refs_from_def)
next
  case (4 s h)
  then show ?case by (simp add: refs_from_def)
next
  case (5 vs h)
  obtain ws h' where a: "alloc_list vs h = (ws, h')" by (cases "alloc_list vs h")
  have ih: "(\<exists>new. h' = h @ new) \<and> fresh_from n h' \<and> refs_from n ws"
    using "5.IH"[OF "5.prems"] a by simp
  then obtain new where n: "h' = h @ new" by blast
  have f: "fresh_from n (h' @ [HArray ws])"
    using ih by (intro fresh_from_snoc) simp_all
  have l: "n \<le> length h'" using n "5.prems"(1) by simp
  show ?case using a f l n by (simp add: refs_from_def)
next
  case (6 kvs h)
  obtain ms h' where a: "alloc_members kvs h = (ms, h')" by (cases "alloc_members kvs h")
  have ih: "(\<exists>new. h' = h @ new) \<and> fresh_from n h' \<and> refs_from n (map snd ms)"
    using "6.IH"[OF "6.prems"] a by simp
  then obtain new where n: "h' = h @ new" by blast
  have f: "fresh_from n (h' @ [HObject ms])"
    using ih by (intro fresh_from_snoc) simp_all
  have l: "n \<le> length h'" using n "6.prems"(1) by simp
  show ?case using a f l n by (simp add: refs_from_def)
next
  case (7 h)
  then show ?case by (simp add: refs_from_def)
next
  case (8 v vs h)
  obtain w h' where a: "alloc v h = (w, h')" by (cases "alloc v h")
  obtain ws h'' where b: "alloc_list vs h' = (ws, h'')" by (cases "alloc_list vs h'")
  have ih1: "(\<exists>new. h' = h @ new) \<and> fresh_from n h' \<and> refs_from n [w]"
    using "8.IH"(1)[OF "8.prems"] a by simp
  then obtain new where n: "h' = h @ new" by blast
  have l: "n \<le> length h'" using n "8.prems"(1) by simp
  have ih2: "(\<exists>new. h'' = h' @ new) \<and> fresh_from n h'' \<and> refs_from n ws"
    using "8.IH"(2)[OF a[symmetric] refl l] ih1 b by simp
  then obtain new2 where n2: "h'' = h' @ new2" by blast
  show ?case using a b ih1 ih2 n n2 by (auto simp: refs_from_def)
next
  case (9 h)
  then show ?case by (simp add: refs_from_def)
next
  case (10 k v kvs h)
  obtain w h' where a: "alloc v h = (w, h')" by (cases "alloc v h")
  obtain ms h'' where b: "alloc_members kvs h' = (ms, h'')" by (cases "alloc_members kvs h'")
  have ih1: "(\<exists>new. h' = h @ new) \<and> fresh_from n h' \<and> refs_from n [w]"
    using "10.IH"(1)[OF "10.prems"] a by simp
  then obtain new where n: "h' = h @ new" by blast
  have l: "n \<le> length h'" using n "10.prems"(1) by simp
  have ih2: "(\<exists>new. h'' = h' @ new) \<and> fresh_from n h'' \<and> refs_from n (map snd ms)"
    using "10.IH"(2)[OF a[symmetric] refl l] ih1 b by simp
  then obtain new2 where n2: "h'' = h' @ new2" by blast
  show ?case using a b ih1 ih2 n n2 by (auto simp: refs_from_def)
qed

lemma reach_fresh:
  assumes "fresh_from n h" "n \<le> a" "x \<in> reach h a"
  shows "n \<le> x"
  using assms(3)
proof (induction rule: reach.induct)
  case start
  then show ?case using assms(2) .
next
  case (step x y)
  then show ?case using assms(1) unfolding fresh_from_def by blast
qed

lemma fresh_from_length: "fresh_from (length h) h"
  by (simp add: fresh_from_def)

lemma stringify_Ref_shape:
  "stringify n h (VRef a) = Some t \<Longrightarrow> (\<exists>kvs. t = JObj kvs) \<or> (\<exists>vs. t = JArr vs)"
  by (cases n) (auto split: if_splits hobj.splits)

lemma alloc_shape:
  "(\<exists>kvs. t = JObj kvs) \<or> (\<exists>vs. t = JArr vs) \<Longrightarrow> \<exists>a. fst (alloc t h) = VRef a"
  by (auto split: prod.splits)

lemma those_map_Some: "those (map Some xs) = Some xs"
  by (induction xs) simp_all

lemma stringify_extend:
  "stringify n h v = Some t \<Longrightarrow> stringify n (h @ ext) v = Some t"
proof (induction n arbitrary: v t)
  case 0
  then show ?case by (cases v) simp_all
next
  case (Suc n)
  show ?case
  proof (cases v)
    case (VRef a)
    have a: "a < length h" using Suc.prems VRef by (simp split: if_splits)
    show ?thesis
    proof (cases "h ! a")
      case (HObject kvs)
      obtain us where us: "those (map (\<lambda>(k, v). map_option (Pair k) (stringify n h v)) kvs) = Some us" "t = JObj us"
        using Suc.prems VRef a HObject by auto
      have "those (map (\<lambda>(k, v). map_option (Pair k) (stringify n (h @ ext) v)) kvs) = Some us"
        using us(1)
      proof (induction kvs arbitrary: us)
        case Nil
        then show ?case by simp
      next
        case (Cons kv kvs)
        obtain k w where kv: "kv = (k, w)" by (cases kv)
        obtain u where u: "stringify n h w = Some u"
          using Cons.prems kv by (auto split: option.splits)
        obtain rest where r: "those (map (\<lambda>(k, v). map_option (Pair k) (stringify n h v)) kvs) = Some rest"
          using Cons.prems kv u by (auto split: option.splits)
        show ?case using Cons.prems kv u r Cons.IH[OF r] Suc.IH[OF u] by simp
      qed
      then show ?thesis using VRef a HObject us(2) by (simp add: nth_append)
    next
      case (HArray vs)
      obtain us where us: "those (map (stringify n h) vs) = Some us" "t = JArr us"
        using Suc.prems VRef a HArray by auto
      have "those (map (stringify n (h @ ext)) vs) = Some us"
        using us(1)
      proof (induction vs arbitrary: us)
        case Nil
        then show ?case by simp
      next
        case (Cons w vs)
        obtain u where u: "stringify n h w = Some u"
          using Cons.prems by (auto split: option.splits)
        obtain rest where r: "those (map (stringify n h) vs) = Some rest"
          using Cons.prems u by (auto split: option.splits)
        show ?case using Cons.prems u r Cons.IH[OF r] Suc.IH[OF u] by simp
      qed
      then show ?thesis using VRef a HArray us(2) by (simp add: nth_append)
    qed
  qed (use Suc.prems in simp_all)
qed

lemma alloc_extends:
  "\<exists>new. snd (alloc t h) = h @ new"
  "\<exists>new. snd (alloc_list ts h) = h @ new"
  "\<exists>new. snd (alloc_members ms h) = h @ new"
  using alloc_fresh[of 0 h] by (simp_all add: fresh_from_def)

lemma map_stringify_extend:
  "map (stringify n h) ws = map Some ts \<Longrightarrow> map (stringify n (h @ ext)) ws = map Some ts"
proof (induction ws arbitrary: ts)
  case Nil
  then show ?case by simp
next
  case (Cons w ws)
  obtain t ts' where ts: "ts = t # ts'" using Cons.prems by (cases ts) auto
  show ?case using Cons.prems ts Cons.IH[of ts'] stringify_extend[of n h w t ext] by simp
qed

lemma members_stringify_extend:
  "map (\<lambda>(k, v). map_option (Pair k) (stringify n h v)) ms = map Some kvs \<Longrightarrow>
   map (\<lambda>(k, v). map_option (Pair k) (stringify n (h @ ext) v)) ms = map Some kvs"
proof (induction ms arbitrary: kvs)
  case Nil
  then show ?case by simp
next
  case (Cons m ms)
  obtain k w where m: "m = (k, w)" by (cases m)
  obtain kv kvs' where kvs: "kvs = kv # kvs'" using Cons.prems by (cases kvs) auto
  obtain t where t: "stringify n h w = Some t" using Cons.prems m kvs by auto
  show ?case using Cons.prems m kvs t Cons.IH[of kvs'] stringify_extend[OF t, of ext] by simp
qed

lemma stringify_alloc:
  "length (snd (alloc t h)) - length h \<le> n \<Longrightarrow>
     stringify n (snd (alloc t h)) (fst (alloc t h)) = Some t"
  "length (snd (alloc_list ts h)) - length h \<le> n \<Longrightarrow>
     map (stringify n (snd (alloc_list ts h))) (fst (alloc_list ts h)) = map Some ts"
  "length (snd (alloc_members kvs h)) - length h \<le> n \<Longrightarrow>
     map (\<lambda>(k, v). map_option (Pair k) (stringify n (snd (alloc_members kvs h)) v))
       (fst (alloc_members kvs h)) = map Some kvs"
proof (induction t h and ts h and kvs h arbitrary: n and n and n rule: alloc_alloc_list_alloc_members.induct)
  case (1 h)
  then show ?case by simp
next
  case (2 b h)
  then show ?case by simp
next
  case (3 r h)
  then show ?case by simp
next
  case (4 s h)
  then show ?case by simp
next
  case (5 vs h)
  obtain ws h' where a: "alloc_list vs h = (ws, h')" by (cases "alloc_list vs h")
  obtain new where n: "h' = h @ new" using alloc_extends(2)[of vs h] a by auto
  obtain m where m: "n = Suc m" "length h' - length h \<le> m"
    using "5.prems" a n by (cases n) auto
  have "map (stringify m h') ws = map Some vs" using "5.IH"[of m] a m(2) by simp
  then have "map (stringify m (h' @ [HArray ws])) ws = map Some vs" by (rule map_stringify_extend)
  then show ?case using a m(1) by (simp add: those_map_Some)
next
  case (6 kvs h)
  obtain ms h' where a: "alloc_members kvs h = (ms, h')" by (cases "alloc_members kvs h")
  obtain new where n: "h' = h @ new" using alloc_extends(3)[of kvs h] a by auto
  obtain m where m: "n = Suc m" "length h' - length h \<le> m"
    using "6.prems" a n by (cases n) auto
  have "map (\<lambda>(k, v). map_option (Pair k) (stringify m h' v)) ms = map Some kvs"
    using "6.IH"[of m] a m(2) by simp
  then have "map (\<lambda>(k, v). map_option (Pair k) (stringify m (h' @ [HObject ms]) v)) ms = map Some kvs"
    by (rule members_stringify_extend)
  then show ?case using a m(1) by (simp add: those_map_Some)
next
  case (7 h)
  then show ?case by simp
next
  case (8 v vs h)
  obtain w h' where a: "alloc v h = (w, h')" by (cases "alloc v h")
  obtain ws h'' where b: "alloc_list vs h' = (ws, h'')" by (cases "alloc_list vs h'")
  obtain new where n1: "h' = h @ new" using alloc_extends(1)[of v h] a by auto
  obtain new2 where n2: "h'' = h' @ new2" using alloc_extends(2)[of vs h'] b by auto
  have l: "length h'' - length h \<le> n" using "8.prems" a b by simp
  have "stringify n h' w = Some v" using "8.IH"(1)[of n] a l n1 n2 by simp
  then have x: "stringify n h'' w = Some v" unfolding n2 by (rule stringify_extend)
  have y: "map (stringify n h'') ws = map Some vs"
    using "8.IH"(2)[OF a[symmetric] refl, of n] b l n1 n2 by simp
  show ?case using a b x y by simp
next
  case (9 h)
  then show ?case by simp
next
  case (10 k v kvs h)
  obtain w h' where a: "alloc v h = (w, h')" by (cases "alloc v h")
  obtain ms h'' where b: "alloc_members kvs h' = (ms, h'')" by (cases "alloc_members kvs h'")
  obtain new where n1: "h' = h @ new" using alloc_extends(1)[of v h] a by auto
  obtain new2 where n2: "h'' = h' @ new2" using alloc_extends(3)[of kvs h'] b by auto
  have l: "length h'' - length h \<le> n" using "10.prems" a b by simp
  have "stringify n h' w = Some v" using "10.IH"(1)[of n] a l n1 n2 by simp
  then have x: "stringify n h'' w = Some v" unfolding n2 by (rule stringify_extend)
  have y: "map (\<lambda>(k, v). map_option (Pair k) (stringify n h'' v)) ms = map Some kvs"
    using "10.IH"(2)[OF a[symmetric] refl, of n] b l n1 n2 by simp
  show ?case using a b x y by simp
qed

lemma JSON_stringify_alloc: "JSON_stringify (snd (alloc t h)) (fst (alloc t h)) = Some t"
  unfolding JSON_stringify_def by (rule stringify_alloc(1)) simp

lemma applySpecPatch_store_parsed:
  assumes "fst (alloc t h0) = VRef a"
  shows "\<exists>n h1. alloc t (snd (alloc t h0)) = (VRef n, h1)
           \<and> applySpecPatch_store engine (snd (alloc t h0)) a patch =
               (fst (engine h1 n patch),
                case snd (engine h1 n patch) of Some e \<Rightarrow> Inl e | None \<Rightarrow> Inr n)"
proof -
  let ?h = "snd (alloc t h0)"
  have s: "JSON_stringify ?h (VRef a) = Some t"
    using JSON_stringify_alloc[of t h0] assms by simp
  have "(\<exists>kvs. t = JObj kvs) \<or> (\<exists>vs. t = JArr vs)"
    using assms by (cases t) (auto split: prod.splits)
  then obtain n where n: "fst (alloc t ?h) = VRef n" using alloc_shape by blast
  obtain h1 where h1: "alloc t ?h = (VRef n, h1)" using n by (cases "alloc t ?h") simp
  have "applySpecPatch_store engine ?h a patch =
               (fst (engine h1 n patch),
                case snd (engine h1 n patch) of Some e \<Rightarrow> Inl e | None \<Rightarrow> Inr n)"
    using s h1 by (simp add: applySpecPatch_store_def split: prod.splits option.splits)
  then show ?thesis using h1 by blast
qed

lemma applySpecPatch_store_untouched:
  assumes "frame engine"
  shows "length h \<le> length (fst (applySpecPatch_store engine h spec patch))
     \<and> (\<forall>x. x < length h \<longrightarrow> fst (applySpecPatch_store engine h spec patch) ! x = h ! x)
     \<and> (\<forall>a. snd (applySpecPatch_store engine h spec patch) = Inr a \<longrightarrow>
           length h \<le> a
           \<and> (\<forall>x. x \<in> reach (fst (applySpecPatch_store engine h spec patch)) a \<longrightarrow> length h \<le> x))"
proof (cases "JSON_stringify h (VRef spec)")
  case None
  then show ?thesis by (simp add: applySpecPatch_store_def)
next
  case (Some t)
  obtain v h1 where al: "alloc t h = (v, h1)" by (cases "alloc t h")
  have fr: "(\<exists>new. h1 = h @ new) \<and> fresh_from (length h) h1 \<and> refs_from (length h) [v]"
    using alloc_fresh(1)[of "length h" h t] al by (simp add: fresh_from_length)
  then obtain new where h1: "h1 = h @ new" by blast
  obtain n where v: "v = VRef n"
    using alloc_shape[OF stringify_Ref_shape, of "length h" h spec t h] Some al
    by (auto simp: JSON_stringify_def)
  have n: "length h \<le> n" using fr v by (simp add: refs_from_def)
  obtain h2 r where en: "engine h1 n patch = (h2, r)" by (cases "engine h1 n patch")
  have f1: "length h1 \<le> length h2"
    and f2: "\<And>x. x < length h1 \<Longrightarrow> x \<notin> reach h1 n \<Longrightarrow> h2 ! x = h1 ! x"
    and f3: "reach h2 n \<subseteq> reach h1 n \<union> {x. length h1 \<le> x}"
    using assms en unfolding frame_def by (metis fst_conv)+
  have r1: "\<And>x. x \<in> reach h1 n \<Longrightarrow> length h \<le> x"
    using reach_fresh[of "length h" h1 n] fr n by blast
  have res: "applySpecPatch_store engine h spec patch =
      (h2, case r of Some e \<Rightarrow> Inl e | None \<Rightarrow> Inr n)"
    using Some al v en by (simp add: applySpecPatch_store_def split: option.splits)
  have a: "length h \<le> length h2" using f1 h1 by simp
  have b: "\<And>x. x < length h \<Longrightarrow> h2 ! x = h ! x"
  proof -
    fix x assume x: "x < length h"
    have "x \<notin> reach h1 n" using r1[of x] x by auto
    then have "h2 ! x = h1 ! x" using f2[of x] x h1 by simp
    then show "h2 ! x = h ! x" using x h1 by (simp add: nth_append)
  qed
  have c: "\<And>x. x \<in> reach h2 n \<Longrightarrow> length h \<le> x"
  proof -
    fix x assume "x \<in> reach h2 n"
    then have "x \<in> reach h1 n \<or> length h1 \<le> x" using f3 by blast
    then show "length h \<le> x" using r1[of x] h1 by auto
  qed
  show ?thesis unfolding res using a b c n by (auto split: option.splits)
qed

text \<open>
  Claim C8. For every store, document and patch, \<open>applySpecPatch\<close> changes no object that
  existed before the call, so the document given and every container nested in it are the
  same before and after; and the document returned is a new object from which only new
  objects are reachable, so it shares no container with the document given. This holds for
  every engine that mutates only the object it is handed. The call does return: for a
  document that was parsed from a JSON value, the copy is that value allocated once more,
  and the result is the copy as the engine leaves it, or the error the engine throws.
\<close>

theorem applySpecPatch_store_frame:
  assumes "frame engine"
  shows "length h \<le> length (fst (applySpecPatch_store engine h spec patch))
     \<and> (\<forall>x. x < length h \<longrightarrow> fst (applySpecPatch_store engine h spec patch) ! x = h ! x)
     \<and> (\<forall>a. snd (applySpecPatch_store engine h spec patch) = Inr a \<longrightarrow>
           length h \<le> a
           \<and> (\<forall>x. x \<in> reach (fst (applySpecPatch_store engine h spec patch)) a \<longrightarrow> length h \<le> x))
     \<and> (\<forall>t h0 d. fst (alloc t h0) = VRef d \<longrightarrow>
           (\<exists>n h1. alloc t (snd (alloc t h0)) = (VRef n, h1)
              \<and> applySpecPatch_store engine (snd (alloc t h0)) d patch =
                  (fst (engine h1 n patch),
                   case snd (engine h1 n patch) of Some e \<Rightarrow> Inl e | None \<Rightarrow> Inr n)))"
proof -
  note u = applySpecPatch_store_untouched[OF assms, of h spec patch]
  have p: "\<forall>t h0 d. fst (alloc t h0) = VRef d \<longrightarrow>
           (\<exists>n h1. alloc t (snd (alloc t h0)) = (VRef n, h1)
              \<and> applySpecPatch_store engine (snd (alloc t h0)) d patch =
                  (fst (engine h1 n patch),
                   case snd (engine h1 n patch) of Some e \<Rightarrow> Inl e | None \<Rightarrow> Inr n))"
  proof (intro allI impI)
    fix t h0 d
    assume "fst (alloc t h0) = VRef d"
    then show "\<exists>n h1. alloc t (snd (alloc t h0)) = (VRef n, h1)
              \<and> applySpecPatch_store engine (snd (alloc t h0)) d patch =
                  (fst (engine h1 n patch),
                   case snd (engine h1 n patch) of Some e \<Rightarrow> Inl e | None \<Rightarrow> Inr n)"
      by (rule applySpecPatch_store_parsed)
  qed
  show ?thesis using u p by (intro conjI) blast+
qed

lemma update_values: "set (map snd (AList.update k v kvs)) \<subseteq> insert v (set (map snd kvs))"
  by (induction kvs) auto

lemma reach_set_root:
  assumes "a < length h" "h ! a = HObject kvs" "x \<in> reach (h[a := HObject (AList.update ''root'' (VStr r) kvs)]) a"
  shows "x \<in> reach h a"
  using assms(3)
proof (induction rule: reach.induct)
  case start
  then show ?case by (rule reach.start)
next
  case (step x y)
  have xl: "x < length h" using step.hyps(2) by simp
  show ?case
  proof (cases "x = a")
    case True
    have "VRef y \<in> set (map snd (AList.update ''root'' (VStr r) kvs))"
      using step.hyps(3) True assms(1) by simp
    then have "VRef y \<in> set (map snd kvs)" using update_values[of "''root''" "VStr r" kvs] by auto
    then have "VRef y \<in> set (children (h ! x))" using True assms(2) by simp
    then show ?thesis using reach.step[OF step.IH xl] by blast
  next
    case False
    then have "VRef y \<in> set (children (h ! x))" using step.hyps(3) by simp
    then show ?thesis using reach.step[OF step.IH xl] by blast
  qed
qed

lemma frame_set_root_in_place: "frame set_root_in_place"
  unfolding frame_def
proof (intro allI conjI impI)
  fix h a and p :: string
  show "length h \<le> length (fst (set_root_in_place h a p))"
    by (simp add: set_root_in_place_def split: hobj.splits)
next
  fix h a x and p :: string
  assume x: "x < length h \<and> x \<notin> reach h a"
  have "x \<noteq> a" using x reach.start[of a h] by auto
  then show "fst (set_root_in_place h a p) ! x = h ! x"
    by (simp add: set_root_in_place_def split: hobj.splits)
next
  fix h a and p :: string
  show "reach (fst (set_root_in_place h a p)) a \<subseteq> reach h a \<union> {x. length h \<le> x}"
  proof (cases "a < length h")
    case True
    show ?thesis
    proof (cases "h ! a")
      case (HObject kvs)
      then show ?thesis using True reach_set_root[OF True HObject]
        by (auto simp: set_root_in_place_def)
    next
      case (HArray vs)
      then show ?thesis using True by (simp add: set_root_in_place_def)
    qed
  next
    case False
    then show ?thesis by (simp add: set_root_in_place_def)
  qed
qed

text \<open>
  The theorem of claim C8 on the empty document as parsed into an empty
  store, at address 1 with its elements object at address 0: the copy has its elements at
  address 2 and is itself at address 3.
\<close>

theorem applySpecPatch_store_frame_witness:
  "frame set_root_in_place
   \<and> alloc (JObj [(''root'', JStr []), (''elements'', JObj [])]) []
     = (VRef 1, [HObject [], HObject [(''root'', VStr []), (''elements'', VRef 0)]])
   \<and> applySpecPatch_store set_root_in_place
       [HObject [], HObject [(''root'', VStr []), (''elements'', VRef 0)]] 1 ''card1''
     = ([HObject [], HObject [(''root'', VStr []), (''elements'', VRef 0)],
         HObject [], HObject [(''root'', VStr ''card1''), (''elements'', VRef 2)]], Inr 3)
   \<and> fst (applySpecPatch_store set_root_in_place
       [HObject [], HObject [(''root'', VStr []), (''elements'', VRef 0)]] 1 ''card1'') ! 1
     = HObject [(''root'', VStr []), (''elements'', VRef 0)]
   \<and> length [HObject [], HObject [(''root'', VStr []), (''elements'', VRef 0)]] \<le> (3::nat)"
proof -
  let ?h = "[HObject [], HObject [(''root'', VStr []), (''elements'', VRef 0)]]"
  have e: "applySpecPatch_store set_root_in_place ?h 1 ''card1''
     = ([HObject [], HObject [(''root'', VStr []), (''elements'', VRef 0)],
         HObject [], HObject [(''root'', VStr ''card1''), (''elements'', VRef 2)]], Inr 3)"
    by code_simp
  note t = applySpecPatch_store_frame[OF frame_set_root_in_place, of ?h 1 "''card1''"]
  have a: "fst (applySpecPatch_store set_root_in_place ?h 1 ''card1'') ! 1 = ?h ! 1"
    using t by simp
  have b: "length ?h \<le> (3::nat)"
    using t e by simp
  have c: "alloc (JObj [(''root'', JStr []), (''elements'', JObj [])]) [] = (VRef 1, ?h)"
    by code_simp
  show ?thesis using frame_set_root_in_place e a b c by simp
qed

section \<open>Failing patches\<close>

lemma snd_read_loop:
  "fst (read_loop pc P engine st buffer reads) = first_rejection reads"
proof (induction reads arbitrary: st buffer)
  case Nil
  then show ?case by simp
next
  case (Cons r rs)
  then show ?case by (cases r) (simp_all split: prod.splits)
qed

lemma snd_processResponseStream:
  "snd (processResponseStream pc P engine reads) =
     (case first_rejection reads of None \<Rightarrow> Closed | Some e \<Rightarrow> Errored e)"
proof -
  obtain r st b where rl: "read_loop pc P engine initial_state [] reads = (r, st, b)"
    by (cases "read_loop pc P engine initial_state [] reads") auto
  have r: "first_rejection reads = r" using snd_read_loop[of pc P engine initial_state "[]" reads] rl by simp
  show ?thesis unfolding r using rl by (cases r) (simp_all add: processResponseStream_def Let_def)
qed

lemma those_map_mono:
  "those (map f xs) = Some ys \<Longrightarrow> (\<And>x y. x \<in> set xs \<Longrightarrow> f x = Some y \<Longrightarrow> g x = Some y) \<Longrightarrow>
     those (map g xs) = Some ys"
proof (induction xs arbitrary: ys)
  case Nil
  then show ?case by simp
next
  case (Cons x xs)
  obtain y where y: "f x = Some y" using Cons.prems(1) by (auto split: option.splits)
  obtain rest where r: "those (map f xs) = Some rest" using Cons.prems(1) y by (auto split: option.splits)
  have g: "g x = Some y" using Cons.prems(2)[of x y] y by simp
  have "those (map g xs) = Some rest" using Cons.IH[OF r] Cons.prems(2) by simp
  then show ?case using Cons.prems(1) y r g by simp
qed

lemma stringify_agree:
  "stringify n h v = Some t \<Longrightarrow> length h \<le> length h' \<Longrightarrow> (\<forall>x<length h. h' ! x = h ! x) \<Longrightarrow> n \<le> m \<Longrightarrow>
     stringify m h' v = Some t"
proof (induction n arbitrary: v t m)
  case 0
  then show ?case by (cases v) simp_all
next
  case (Suc n)
  show ?case
  proof (cases v)
    case (VRef a)
    have a: "a < length h" using Suc.prems(1) VRef by (simp split: if_splits)
    obtain m' where m: "m = Suc m'" "n \<le> m'" using Suc.prems(4) by (cases m) auto
    have same: "h' ! a = h ! a" and a': "a < length h'" using a Suc.prems(2,3) by auto
    have ih: "\<And>w u. stringify n h w = Some u \<Longrightarrow> stringify m' h' w = Some u"
      using Suc.IH[OF _ Suc.prems(2,3) m(2)] by blast
    show ?thesis
    proof (cases "h ! a")
      case (HObject kvs)
      obtain us where us: "those (map (\<lambda>(k, v). map_option (Pair k) (stringify n h v)) kvs) = Some us" "t = JObj us"
        using Suc.prems(1) VRef a HObject by auto
      have "those (map (\<lambda>(k, v). map_option (Pair k) (stringify m' h' v)) kvs) = Some us"
        using us(1) by (rule those_map_mono) (auto dest: ih)
      then show ?thesis using VRef a' same HObject us(2) m(1) by simp
    next
      case (HArray vs)
      obtain us where us: "those (map (stringify n h) vs) = Some us" "t = JArr us"
        using Suc.prems(1) VRef a HArray by auto
      have "those (map (stringify m' h') vs) = Some us"
        using us(1) by (rule those_map_mono) (auto dest: ih)
      then show ?thesis using VRef a' same HArray us(2) m(1) by simp
    qed
  qed (use Suc.prems in simp_all)
qed

lemma JSON_stringify_agree:
  "JSON_stringify h v = Some t \<Longrightarrow> length h \<le> length h' \<Longrightarrow> (\<forall>x<length h. h' ! x = h ! x) \<Longrightarrow>
     JSON_stringify h' v = Some t"
  unfolding JSON_stringify_def by (rule stringify_agree)

lemma frame_set_root_then_throw: "frame set_root_then_throw"
  using frame_set_root_in_place unfolding frame_def set_root_then_throw_def by simp

lemma applyPatchLine_store_objects:
  "objects (snd (applyPatchLine_store engine r patch)) =
     fst (applySpecPatch_store engine (objects r) (currentSpec_ref r) patch)"
  by (simp add: applyPatchLine_store_def split: prod.splits sum.splits)

lemma applyPatchLine_store_throw:
  "fst (applyPatchLine_store engine r patch) = Some e \<Longrightarrow>
     snd (applySpecPatch_store engine (objects r) (currentSpec_ref r) patch) = Inl e
     \<and> currentSpec_ref (snd (applyPatchLine_store engine r patch)) = currentSpec_ref r
     \<and> enqueued_refs (snd (applyPatchLine_store engine r patch)) = enqueued_refs r"
  by (auto simp: applyPatchLine_store_def split: prod.splits sum.splits)

lemma applyPatchLine_store_return:
  "fst (applyPatchLine_store engine r patch) = None \<Longrightarrow>
     snd (applySpecPatch_store engine (objects r) (currentSpec_ref r) patch)
       = Inr (currentSpec_ref (snd (applyPatchLine_store engine r patch)))
     \<and> enqueued_refs (snd (applyPatchLine_store engine r patch)) =
         enqueued_refs r @ [currentSpec_ref (snd (applyPatchLine_store engine r patch))]"
  by (auto simp: applyPatchLine_store_def split: prod.splits sum.splits)

text \<open>
  Claim C9, as amended. When applying a patch fails, the failure is not surfaced: the
  \<open>catch\<close> of \<open>processLine\<close> drops it, and how the stream ends depends on the reads
  alone: closed unless a read was rejected. The document is not corrupted. The patch
  branch ends before \<open>currentSpec\<close> is assigned and before anything is enqueued, so the
  threaded document is the one before the failing patch, while a patch that applies is
  assigned and enqueued at once; chunks enqueued before are never altered, the queue only
  grows. On the store, where the engine writes in place and may have written when it
  throws: no object that existed before the call is changed, and every value that could be
  serialised before the call has the same JSON text after it, so the threaded document
  and every document enqueued earlier are what they were; after a throw the variable and
  the queue hold the references they held, and a patch that applies gives a new object,
  enqueued at once.
\<close>

theorem patch_failure_skipped:
  assumes "frame store_engine"
  shows "(\<forall>e. applySpecPatch engine (currentSpec st) d = Inl e \<longrightarrow>
        fst (applyPatchLine engine st d) = Some e
        \<and> currentSpec (snd (applyPatchLine engine st d)) = currentSpec st
        \<and> enqueued (snd (applyPatchLine engine st d)) = enqueued st)
   \<and> (\<forall>s. applySpecPatch engine (currentSpec st) d = Inr s \<longrightarrow>
        fst (applyPatchLine engine st d) = None
        \<and> currentSpec (snd (applyPatchLine engine st d)) = s
        \<and> enqueued (snd (applyPatchLine engine st d)) = enqueued st @ [DataUI s])
   \<and> (\<exists>new. enqueued (processLine parse_chunk JSON_parse engine st line) = enqueued st @ new)
   \<and> snd (processResponseStream parse_chunk JSON_parse engine reads) =
        (case first_rejection reads of None \<Rightarrow> Closed | Some e \<Rightarrow> Errored e)
   \<and> (\<forall>x. x < length (objects r) \<longrightarrow>
        objects (snd (applyPatchLine_store store_engine r patch)) ! x = objects r ! x)
   \<and> (\<forall>v t. JSON_stringify (objects r) v = Some t \<longrightarrow>
        JSON_stringify (objects (snd (applyPatchLine_store store_engine r patch))) v = Some t)
   \<and> (\<forall>e. fst (applyPatchLine_store store_engine r patch) = Some e \<longrightarrow>
        currentSpec_ref (snd (applyPatchLine_store store_engine r patch)) = currentSpec_ref r
        \<and> enqueued_refs (snd (applyPatchLine_store store_engine r patch)) = enqueued_refs r)
   \<and> (fst (applyPatchLine_store store_engine r patch) = None \<longrightarrow>
        length (objects r) \<le> currentSpec_ref (snd (applyPatchLine_store store_engine r patch))
        \<and> enqueued_refs (snd (applyPatchLine_store store_engine r patch)) =
            enqueued_refs r @ [currentSpec_ref (snd (applyPatchLine_store store_engine r patch))])"
proof -
  let ?r' = "snd (applyPatchLine_store store_engine r patch)"
  have a: "\<forall>e. applySpecPatch engine (currentSpec st) d = Inl e \<longrightarrow>
        fst (applyPatchLine engine st d) = Some e
        \<and> currentSpec (snd (applyPatchLine engine st d)) = currentSpec st
        \<and> enqueued (snd (applyPatchLine engine st d)) = enqueued st"
    by (simp add: applyPatchLine_def Let_def)
  have b: "\<forall>s. applySpecPatch engine (currentSpec st) d = Inr s \<longrightarrow>
        fst (applyPatchLine engine st d) = None
        \<and> currentSpec (snd (applyPatchLine engine st d)) = s
        \<and> enqueued (snd (applyPatchLine engine st d)) = enqueued st @ [DataUI s]"
    by (simp add: applyPatchLine_def Let_def)
  have c: "\<exists>new. enqueued (processLine parse_chunk JSON_parse engine st line) = enqueued st @ new"
    using later_processLine[of st parse_chunk JSON_parse engine line] unfolding later_def by blast
  have e: "snd (processResponseStream parse_chunk JSON_parse engine reads) =
        (case first_rejection reads of None \<Rightarrow> Closed | Some e \<Rightarrow> Errored e)"
    by (rule snd_processResponseStream)
  note u = applySpecPatch_store_untouched[OF assms, of "objects r" "currentSpec_ref r" patch]
  have len: "length (objects r) \<le> length (objects ?r')"
    using u by (simp add: applyPatchLine_store_objects)
  have same: "\<forall>x<length (objects r). objects ?r' ! x = objects r ! x"
    using u by (simp add: applyPatchLine_store_objects)
  have f: "\<forall>x. x < length (objects r) \<longrightarrow> objects ?r' ! x = objects r ! x"
    using same by blast
  have g: "\<forall>v t. JSON_stringify (objects r) v = Some t \<longrightarrow> JSON_stringify (objects ?r') v = Some t"
    using len same JSON_stringify_agree by blast
  have h: "\<forall>e. fst (applyPatchLine_store store_engine r patch) = Some e \<longrightarrow>
        currentSpec_ref ?r' = currentSpec_ref r \<and> enqueued_refs ?r' = enqueued_refs r"
    using applyPatchLine_store_throw[of store_engine r patch] by blast
  have i: "fst (applyPatchLine_store store_engine r patch) = None \<longrightarrow>
        length (objects r) \<le> currentSpec_ref ?r'
        \<and> enqueued_refs ?r' = enqueued_refs r @ [currentSpec_ref ?r']"
  proof
    assume n: "fst (applyPatchLine_store store_engine r patch) = None"
    note ret = applyPatchLine_store_return[OF n]
    have "snd (applySpecPatch_store store_engine (objects r) (currentSpec_ref r) patch) = Inr (currentSpec_ref ?r')"
      using ret by (rule conjunct1)
    then have "length (objects r) \<le> currentSpec_ref ?r'" using u by blast
    then show "length (objects r) \<le> currentSpec_ref ?r'
        \<and> enqueued_refs ?r' = enqueued_refs r @ [currentSpec_ref ?r']"
      using ret by blast
  qed
  show ?thesis
    apply (intro conjI)
    using a apply blast
    using b apply blast
    using c apply blast
    using e apply blast
    using f apply blast
    using g apply blast
    using h apply blast
    using i apply blast
    done
qed

text \<open>
  As claim C9 states it, a failed application would be surfaced to the caller. A test
  patch against the empty document fails; the stream enqueues nothing and closes.
\<close>

theorem patch_failure_not_surfaced:
  "applySpecPatch applySpecStreamLine empty_Spec
      (JObj [(''op'', JStr ''test''), (''path'', JStr ''/root''), (''value'', JStr ''card1'')])
     = Inl PatchTestFailed
   \<and> processResponseStream sample_parse_chunk sample_JSON_parse applySpecStreamLine
       [sse (text_delta_json ''text1'' (test_root_line @ [newline]))] = ([], Closed)"
  by code_simp

text \<open>
  The theorem of the failing patches at the initial state, for a test patch that fails and
  a replace patch that applies; and on a store that holds the empty document and the
  document enqueued after a first patch, for an engine that writes the root of the copy
  and then throws, and for one that writes it and returns.
\<close>

theorem patch_failure_skipped_witness:
  "frame set_root_then_throw
   \<and> applySpecPatch applySpecStreamLine (currentSpec initial_state)
      (JObj [(''op'', JStr ''test''), (''path'', JStr ''/root''), (''value'', JStr ''card1'')])
     = Inl PatchTestFailed
   \<and> applyPatchLine applySpecStreamLine initial_state
      (JObj [(''op'', JStr ''test''), (''path'', JStr ''/root''), (''value'', JStr ''card1'')])
     = (Some PatchTestFailed, initial_state)
   \<and> applySpecPatch applySpecStreamLine (currentSpec initial_state)
      (JObj [(''op'', JStr ''replace''), (''path'', JStr ''/root''), (''value'', JStr ''card1'')])
     = Inr \<lparr>root = ''card1'', elements = [], state = None\<rparr>
   \<and> enqueued (snd (applyPatchLine applySpecStreamLine initial_state
      (JObj [(''op'', JStr ''replace''), (''path'', JStr ''/root''), (''value'', JStr ''card1'')])))
     = [DataUI \<lparr>root = ''card1'', elements = [], state = None\<rparr>]
   \<and> applyPatchLine_store set_root_then_throw
        \<lparr>objects = [HObject [], HObject [(''root'', VStr []), (''elements'', VRef 0)],
                    HObject [], HObject [(''root'', VStr ''card1''), (''elements'', VRef 2)]],
         currentSpec_ref = 3, enqueued_refs = [3]\<rparr> ''other''
     = (Some PatchTestFailed,
        \<lparr>objects = [HObject [], HObject [(''root'', VStr []), (''elements'', VRef 0)],
                    HObject [], HObject [(''root'', VStr ''card1''), (''elements'', VRef 2)],
                    HObject [], HObject [(''root'', VStr ''other''), (''elements'', VRef 4)]],
         currentSpec_ref = 3, enqueued_refs = [3]\<rparr>)
   \<and> JSON_stringify
        [HObject [], HObject [(''root'', VStr []), (''elements'', VRef 0)],
         HObject [], HObject [(''root'', VStr ''card1''), (''elements'', VRef 2)]] (VRef 3)
     = Some (JObj [(''root'', JStr ''card1''), (''elements'', JObj [])])
   \<and> JSON_stringify
        [HObject [], HObject [(''root'', VStr []), (''elements'', VRef 0)],
         HObject [], HObject [(''root'', VStr ''card1''), (''elements'', VRef 2)],
         HObject [], HObject [(''root'', VStr ''other''), (''elements'', VRef 4)]] (VRef 3)
     = Some (JObj [(''root'', JStr ''card1''), (''elements'', JObj [])])
   \<and> applyPatchLine_store set_root_in_place
        \<lparr>objects = [HObject [], HObject [(''root'', VStr []), (''elements'', VRef 0)],
                    HObject [], HObject [(''root'', VStr ''card1''), (''elements'', VRef 2)]],
         currentSpec_ref = 3, enqueued_refs = [3]\<rparr> ''other''
     = (None,
        \<lparr>objects = [HObject [], HObject [(''root'', VStr []), (''elements'', VRef 0)],
                    HObject [], HObject [(''root'', VStr ''card1''), (''elements'', VRef 2)],
                    HObject [], HObject [(''root'', VStr ''other''), (''elements'', VRef 4)]],
         currentSpec_ref = 5, enqueued_refs = [3, 5]\<rparr>)
   \<and> objects (snd (applyPatchLine_store set_root_then_throw
        \<lparr>objects = [HObject [], HObject [(''root'', VStr []), (''elements'', VRef 0)],
                    HObject [], HObject [(''root'', VStr ''card1''), (''elements'', VRef 2)]],
         currentSpec_ref = 3, enqueued_refs = [3]\<rparr> ''other'')) ! 3
     = HObject [(''root'', VStr ''card1''), (''elements'', VRef 2)]"
proof -
  let ?t = "JObj [(''op'', JStr ''test''), (''path'', JStr ''/root''), (''value'', JStr ''card1'')]"
  let ?r = "JObj [(''op'', JStr ''replace''), (''path'', JStr ''/root''), (''value'', JStr ''card1'')]"
  let ?h = "[HObject [], HObject [(''root'', VStr []), (''elements'', VRef 0)],
             HObject [], HObject [(''root'', VStr ''card1''), (''elements'', VRef 2)]]"
  let ?h' = "[HObject [], HObject [(''root'', VStr []), (''elements'', VRef 0)],
              HObject [], HObject [(''root'', VStr ''card1''), (''elements'', VRef 2)],
              HObject [], HObject [(''root'', VStr ''other''), (''elements'', VRef 4)]]"
  let ?refs = "\<lparr>objects = ?h, currentSpec_ref = 3, enqueued_refs = [3]\<rparr>"
  let ?doc = "JObj [(''root'', JStr ''card1''), (''elements'', JObj [])]"
  have fr: "frame set_root_then_throw" by (rule frame_set_root_then_throw)
  have f: "applySpecPatch applySpecStreamLine (currentSpec initial_state) ?t = Inl PatchTestFailed"
    by code_simp
  have s: "applySpecPatch applySpecStreamLine (currentSpec initial_state) ?r
     = Inr \<lparr>root = ''card1'', elements = [], state = None\<rparr>"
    by code_simp
  have thrown: "applySpecPatch_store set_root_then_throw ?h 3 ''other'' = (?h', Inl PatchTestFailed)"
    by code_simp
  have returned: "applySpecPatch_store set_root_in_place ?h 3 ''other'' = (?h', Inr 5)"
    by code_simp
  have before: "JSON_stringify (objects ?refs) (VRef 3) = Some ?doc"
    by code_simp
  note tt = patch_failure_skipped[OF fr, of applySpecStreamLine initial_state ?t
      sample_parse_chunk sample_JSON_parse "[]" "[]" ?refs "''other''"]
  note tr = patch_failure_skipped[OF frame_set_root_in_place, of applySpecStreamLine initial_state ?r
      sample_parse_chunk sample_JSON_parse "[]" "[]" ?refs "''other''"]
  have a: "fst (applyPatchLine applySpecStreamLine initial_state ?t) = Some PatchTestFailed"
    using tt f by blast
  have f0: "applySpecPatch applySpecStreamLine empty_Spec ?t = Inl PatchTestFailed"
    by code_simp
  have a2: "snd (applyPatchLine applySpecStreamLine initial_state ?t) = initial_state"
    using f0 by (simp add: applyPatchLine_def Let_def splitTextSegment_def initial_state_def)
  have a3: "applyPatchLine applySpecStreamLine initial_state ?t = (Some PatchTestFailed, initial_state)"
    using a a2 by (simp add: prod_eq_iff)
  have b: "enqueued (snd (applyPatchLine applySpecStreamLine initial_state ?r))
     = enqueued initial_state @ [DataUI \<lparr>root = ''card1'', elements = [], state = None\<rparr>]"
    using tr s by blast
  have st: "applyPatchLine_store set_root_then_throw ?refs ''other''
      = (Some PatchTestFailed, \<lparr>objects = ?h', currentSpec_ref = 3, enqueued_refs = [3]\<rparr>)"
    using thrown by (simp add: applyPatchLine_store_def)
  have sr: "applyPatchLine_store set_root_in_place ?refs ''other''
      = (None, \<lparr>objects = ?h', currentSpec_ref = 5, enqueued_refs = [3, 5]\<rparr>)"
    using returned by (simp add: applyPatchLine_store_def)
  have after: "JSON_stringify (objects (snd (applyPatchLine_store set_root_then_throw ?refs ''other''))) (VRef 3)
      = Some ?doc"
    using tt before by blast
  have after': "JSON_stringify ?h' (VRef 3) = Some ?doc"
    using after unfolding st by simp
  have before': "JSON_stringify ?h (VRef 3) = Some ?doc" using before by simp
  have kept: "objects (snd (applyPatchLine_store set_root_then_throw ?refs ''other'')) ! 3
      = HObject [(''root'', VStr ''card1''), (''elements'', VRef 2)]"
    using tt by simp
  show ?thesis
    apply (intro conjI)
    using fr apply blast
    using f apply blast
    using a3 apply blast
    using s apply blast
    using b apply (simp add: initial_state_def)
    using st apply blast
    using before' apply blast
    using after' apply blast
    using sr apply blast
    using kept apply blast
    done
qed

end
